theory Spec2Isabelle
  imports Main "HOL-Library.AList" "HOL-Library.Multiset"
begin

unbundle bit_operations_syntax

section \<open>The buddy allocator of \<^verbatim>\<open>s92066684_Miniproject_BuddySystem.py\<close>\<close>

text \<open>
  Python integers are unbounded, so sizes and addresses are \<^typ>\<open>int\<close>; \<^verbatim>\<open>&\<close> and
  \<^verbatim>\<open>^\<close> are the two's complement operations \<open>AND\<close> and \<open>XOR\<close> on \<^typ>\<open>int\<close>.
  A Python dictionary is an association list with distinct keys, in insertion order:
  \<^const>\<open>map_of\<close> reads a key, \<^const>\<open>AList.update\<close> overwrites it in place or adds
  it at the end, \<^const>\<open>AList.delete\<close> removes it.
  Every \<^verbatim>\<open>raise ValueError\<close> of the source is a value of \<open>error\<close>, named after its
  message; a subscript on a missing dictionary key is \<open>KeyError\<close>. The source's variables
  \<^verbatim>\<open>size\<close> and \<^verbatim>\<open>power\<close> are \<open>sz\<close> and \<open>pwr\<close> here, since HOL has constants of
  these names.
\<close>

datatype error = NotPowerOfTwo | RequestTooLarge | NoSuitableBlock | InvalidFree | KeyError

record buddy =
  total_memory :: int
  free_list :: "(int \<times> int list) list"
  allocated :: "(int \<times> int) list"

subsection \<open>\<^verbatim>\<open>__init__\<close>\<close>

definition construct :: "int \<Rightarrow> error + buddy" where
  "construct tm =
     (if tm AND (tm - 1) \<noteq> 0 then Inl NotPowerOfTwo
      else Inr \<lparr>total_memory = tm, free_list = [(tm, [0])], allocated = []\<rparr>)"

subsection \<open>\<^verbatim>\<open>next_power_of_two\<close>\<close>

text \<open>The loop \<^verbatim>\<open>while power < size: power *= 2\<close>; it does not end from \<open>power \<le> 0\<close>.\<close>

partial_function (option) npot_loop :: "int \<Rightarrow> int \<Rightarrow> int option" where
  "npot_loop pwr sz = (if pwr < sz then npot_loop (pwr * 2) sz else Some pwr)"

definition next_power_of_two :: "int \<Rightarrow> int option" where
  "next_power_of_two sz =
     (if sz AND (sz - 1) = 0 then Some sz else npot_loop 1 sz)"

subsection \<open>\<^verbatim>\<open>allocate\<close>\<close>

text \<open>\<^verbatim>\<open>d.get(k, [])\<close>\<close>

definition get :: "(int \<times> int list) list \<Rightarrow> int \<Rightarrow> int list" where
  "get fl k = (case map_of fl k of None \<Rightarrow> [] | Some l \<Rightarrow> l)"

text \<open>\<^verbatim>\<open>d.setdefault(k, []).append(a)\<close>\<close>

definition setdefault_append :: "(int \<times> int list) list \<Rightarrow> int \<Rightarrow> int \<Rightarrow> (int \<times> int list) list" where
  "setdefault_append fl k a = AList.update k (get fl k @ [a]) fl"

text \<open>
  The splitting loop \<^verbatim>\<open>while block_size > size\<close>. Floor division by two leaves \<open>0\<close>
  and \<open>-1\<close> as they are, so the loop does not end from a \<open>block_size \<le> 0\<close> above \<open>size\<close>.
\<close>

partial_function (option) split_loop ::
  "(int \<times> int list) list \<Rightarrow> int \<Rightarrow> int \<Rightarrow> int \<Rightarrow> (int \<times> int list) list option" where
  "split_loop fl address block_size sz =
     (if block_size > sz
      then split_loop (setdefault_append fl (block_size div 2) (address + block_size div 2))
             address (block_size div 2) sz
      else Some fl)"

text \<open>
  The \<^verbatim>\<open>for block_size in sorted(self.free_list)\<close> loop over the remaining keys. The
  result is the outcome (an error, or the address returned) and the state the call leaves.
\<close>

fun scan :: "buddy \<Rightarrow> int \<Rightarrow> int list \<Rightarrow> ((error + int) \<times> buddy) option" where
  "scan st sz [] = Some (Inl NoSuitableBlock, st)"
| "scan st sz (block_size # ks) =
     (if block_size \<ge> sz then
        (case map_of (free_list st) block_size of
           None \<Rightarrow> Some (Inl KeyError, st)
         | Some [] \<Rightarrow> scan st sz ks
         | Some (address # rest) \<Rightarrow>
             (case split_loop (AList.update block_size rest (free_list st))
                     address block_size sz of
                None \<Rightarrow> None
              | Some fl \<Rightarrow>
                  Some (Inr address,
                        st\<lparr>free_list := fl,
                           allocated := AList.update address sz (allocated st)\<rparr>)))
      else scan st sz ks)"

definition allocate :: "buddy \<Rightarrow> int \<Rightarrow> ((error + int) \<times> buddy) option" where
  "allocate st size0 =
     (case next_power_of_two size0 of
        None \<Rightarrow> None
      | Some sz \<Rightarrow>
          if sz > total_memory st then Some (Inl RequestTooLarge, st)
          else scan st sz (sort (map fst (free_list st))))"

subsection \<open>\<^verbatim>\<open>free\<close>\<close>

definition total_len :: "(int \<times> int list) list \<Rightarrow> nat" where
  "total_len fl = sum_list (map (\<lambda>p. length (snd p)) fl)"

text \<open>
  The coalescing loop \<^verbatim>\<open>while size < self.total_memory\<close>; it returns the free list,
  the address and the size it ends with. Every turn takes one address out of the free
  list, which is why it ends.
\<close>

function merge_loop ::
  "int \<Rightarrow> (int \<times> int list) list \<Rightarrow> int \<Rightarrow> int \<Rightarrow> (int \<times> int list) list \<times> int \<times> int" where
  "merge_loop tm fl address sz =
     (if sz < tm then
        (if (address XOR sz) \<in> set (get fl sz)
         then merge_loop tm (AList.update sz (remove1 (address XOR sz) (get fl sz)) fl)
                (min address (address XOR sz)) (sz * 2)
         else (fl, address, sz))
      else (fl, address, sz))"
  by pat_completeness auto
termination
proof (relation "measure (\<lambda>(tm, fl, address, sz). total_len fl)")
  fix tm :: int and fl :: "(int \<times> int list) list" and address sz :: int
  assume "address XOR sz \<in> set (get fl sz)"
  then obtain l where l: "map_of fl sz = Some l" "address XOR sz \<in> set l"
    by (cases "map_of fl sz") (auto simp: get_def)
  have upd: "total_len (AList.update k l' al) + length l = total_len al + length l'"
    if "map_of al k = Some l" for al :: "(int \<times> int list) list" and k l'
    using that by (induction al) (auto simp: total_len_def)
  from l(2) have "length (remove1 (address XOR sz) l) < length l"
    by (induction l) auto
  with upd [OF l(1), of "remove1 (address XOR sz) l"] l(1)
  show "((tm, AList.update sz (remove1 (address XOR sz) (get fl sz)) fl,
          min address (address XOR sz), sz * 2), (tm, fl, address, sz))
        \<in> measure (\<lambda>(tm, fl, address, sz). total_len fl)"
    by (simp add: get_def)
qed simp

declare merge_loop.simps [simp del]
declare npot_loop.simps [code]
declare split_loop.simps [code]

definition free :: "buddy \<Rightarrow> int \<Rightarrow> int \<Rightarrow> ((error + unit) \<times> buddy) option" where
  "free st address size0 =
     (case next_power_of_two size0 of
        None \<Rightarrow> None
      | Some sz \<Rightarrow>
          if sz > total_memory st then Some (Inl RequestTooLarge, st)
          else if map_of (allocated st) address \<noteq> Some sz then Some (Inl InvalidFree, st)
          else
            (case merge_loop (total_memory st) (free_list st) address sz of
               (fl, address', size') \<Rightarrow>
                 let fl' = setdefault_append fl size' address'
                 in Some (Inr (),
                      st\<lparr>free_list := AList.update size' (sort (get fl' size')) fl',
                         allocated := AList.delete address (allocated st)\<rparr>)))"

subsection \<open>Sequences of calls\<close>

datatype op = Alloc int | Free int int

fun positive :: "op \<Rightarrow> bool" where
  "positive (Alloc sz) = (0 < sz)"
| "positive (Free address sz) = (0 < sz)"

fun exec :: "buddy \<Rightarrow> op \<Rightarrow> buddy option" where
  "exec st (Alloc sz) = map_option snd (allocate st sz)"
| "exec st (Free address sz) = map_option snd (free st address sz)"

fun run :: "buddy \<Rightarrow> op list \<Rightarrow> buddy option" where
  "run st [] = Some st"
| "run st (x # xs) = (case exec st x of None \<Rightarrow> None | Some st' \<Rightarrow> run st' xs)"

subsection \<open>Blocks\<close>

text \<open>
  A block is a pair of an address and a size. The blocks of a state are the free ones,
  read off the free list in dictionary order, followed by the allocated ones; a block
  occupies the half-open interval from its address.
\<close>

definition free_blocks :: "(int \<times> int list) list \<Rightarrow> (int \<times> int) list" where
  "free_blocks fl = concat (map (\<lambda>(k, l). map (\<lambda>a. (a, k)) l) fl)"

definition blocks :: "buddy \<Rightarrow> (int \<times> int) list" where
  "blocks st = free_blocks (free_list st) @ allocated st"

definition interval :: "int \<times> int \<Rightarrow> int set" where
  "interval b = {fst b ..< fst b + snd b}"

fun no_overlap :: "(int \<times> int) list \<Rightarrow> bool" where
  "no_overlap [] = True"
| "no_overlap (b # bs) = ((\<forall>c \<in> set bs. interval b \<inter> interval c = {}) \<and> no_overlap bs)"

subsection \<open>The invariant\<close>

text \<open>
  The blocks of a state, taken as a multiset, tile the address space: every address in
  \<open>[0, total_memory)\<close> lies in exactly one block and no other address lies in any, the
  sizes add up to \<open>total_memory\<close>, and every block has a power of two as its size and
  an address that is a multiple of it. Besides, both dictionaries have distinct keys,
  every free list is sorted, and no free list holds an address together with its buddy.
\<close>

definition pow2 :: "int \<Rightarrow> bool" where
  "pow2 n = (\<exists>j. n = 2 ^ j)"

definition covering :: "int \<Rightarrow> (int \<times> int) multiset \<Rightarrow> nat" where
  "covering x M = size (filter_mset (\<lambda>b. x \<in> interval b) M)"

definition tiling :: "int \<Rightarrow> (int \<times> int) multiset \<Rightarrow> bool" where
  "tiling T M \<longleftrightarrow>
     (\<forall>x. covering x M = (if 0 \<le> x \<and> x < T then 1 else 0))
     \<and> (\<Sum>b\<in>#M. snd b) = T
     \<and> (\<forall>b\<in>#M. pow2 (snd b) \<and> snd b dvd fst b)"

definition at_size :: "int \<Rightarrow> int list \<Rightarrow> (int \<times> int) list" where
  "at_size k l = map (\<lambda>a. (a, k)) l"

definition no_buddies :: "(int \<times> int list) list \<Rightarrow> bool" where
  "no_buddies fl = (\<forall>S a. a \<in> set (get fl S) \<longrightarrow> a XOR S \<notin> set (get fl S))"

definition lists_sorted :: "(int \<times> int list) list \<Rightarrow> bool" where
  "lists_sorted fl = (\<forall>S. sorted (get fl S))"

definition invariant :: "buddy \<Rightarrow> bool" where
  "invariant st \<longleftrightarrow>
     tiling (total_memory st) (mset (blocks st))
     \<and> distinct (map fst (free_list st)) \<and> distinct (map fst (allocated st))
     \<and> lists_sorted (free_list st) \<and> no_buddies (free_list st)"

section \<open>Powers of two and bits\<close>

lemma pow2_and_pred: "(2::int) ^ k AND (2 ^ k - 1) = 0"
proof -
  have "(2::int) ^ k AND mask k = 0"
    by (rule bit_eqI) (simp add: bit_and_iff bit_exp_iff bit_mask_iff)
  then show ?thesis by (simp add: mask_eq_exp_minus_1)
qed

lemma neg_and_pred: "(n::int) < 0 \<Longrightarrow> n AND (n - 1) \<noteq> 0"
proof -
  assume "n < 0"
  then have "n AND (n - 1) < 0" by simp
  then show ?thesis by linarith
qed

lemma and_pred_zero_pow2:
  fixes n :: int
  shows "0 < n \<Longrightarrow> n AND (n - 1) = 0 \<Longrightarrow> \<exists>k. n = 2 ^ k"
proof (induction "nat n" arbitrary: n rule: less_induct)
  case less
  show ?case
  proof (cases "even n")
    case True
    then obtain m where m: "n = 2 * m" by (auto elim: evenE)
    with less.prems have mpos: "0 < m" by simp
    have "(n - 1) div 2 = m - 1" "odd (n - 1)" using m by simp_all
    then have "n AND (n - 1) = 2 * (m AND (m - 1))"
      using m and_rec [of n "n - 1"] by simp
    with less.prems have "m AND (m - 1) = 0" by simp
    moreover have "nat m < nat n" using m mpos by simp
    ultimately obtain k where "m = 2 ^ k" using less.hyps mpos by blast
    with m have "n = 2 ^ Suc k" by simp
    then show ?thesis by blast
  next
    case False
    then obtain m where m: "n = 2 * m + 1" by (auto elim: oddE)
    then have "n AND (n - 1) = 2 * m"
      using and_rec [of n "n - 1"] by simp
    with less.prems have "m = 0" by simp
    with m have "n = 2 ^ 0" by simp
    then show ?thesis by blast
  qed
qed

lemma xor_pow2: "(2 ^ j * m) XOR 2 ^ j = (2 ^ j * (if even m then m + 1 else m - 1) :: int)"
proof -
  have "(2 ^ j * m) XOR 2 ^ j = push_bit j m XOR push_bit j (1::int)"
    by (simp add: push_bit_eq_mult mult.commute)
  also have "\<dots> = push_bit j (m XOR 1)"
    by (simp only: push_bit_xor)
  also have "\<dots> = 2 ^ j * (if even m then m + 1 else m - 1)"
    by (simp add: xor_one_eq push_bit_eq_mult mult.commute)
  finally show ?thesis .
qed

section \<open>\<^verbatim>\<open>next_power_of_two\<close> returns, with the least power of two above a positive size\<close>

lemma npot_loop_Some:
  "0 < p \<Longrightarrow> \<exists>i. npot_loop p sz = Some (p * 2 ^ i) \<and> sz \<le> p * 2 ^ i \<and> (i = 0 \<or> p * 2 ^ i < 2 * sz)"
proof (induction "nat (sz - p)" arbitrary: p rule: less_induct)
  case less
  show ?case
  proof (cases "p < sz")
    case False
    then have "npot_loop p sz = Some (p * 2 ^ 0)" "sz \<le> p * 2 ^ 0"
      by (simp_all add: npot_loop.simps)
    then show ?thesis by blast
  next
    case True
    with less.prems have "nat (sz - p * 2) < nat (sz - p)" "0 < p * 2" by simp_all
    from less.hyps [OF this] obtain i where
      i: "npot_loop (p * 2) sz = Some (p * 2 * 2 ^ i)" "sz \<le> p * 2 * 2 ^ i"
         "i = 0 \<or> p * 2 * 2 ^ i < 2 * sz"
      by blast
    have "npot_loop p sz = Some (p * 2 ^ Suc i)"
      using True i(1) by (subst npot_loop.simps) (simp add: mult.assoc)
    moreover have "sz \<le> p * 2 ^ Suc i" using i(2) by (simp add: mult.assoc)
    moreover have "p * 2 ^ Suc i < 2 * sz"
      using i(3) True by (auto simp: mult.assoc)
    ultimately show ?thesis by blast
  qed
qed

lemma next_power_of_two_pos:
  assumes "0 < sz"
  shows "\<exists>j. next_power_of_two sz = Some (2 ^ j) \<and> sz \<le> 2 ^ j \<and> 2 ^ j < 2 * sz"
proof (cases "sz AND (sz - 1) = 0")
  case True
  with assms obtain k where "sz = 2 ^ k" using and_pred_zero_pow2 by blast
  with True assms show ?thesis by (auto simp: next_power_of_two_def)
next
  case False
  from npot_loop_Some [of 1 sz] obtain i where
    i: "npot_loop 1 sz = Some (2 ^ i)" "sz \<le> 2 ^ i" "i = 0 \<or> 2 ^ i < 2 * sz"
    by auto
  from i(3) assms have "(2::int) ^ i < 2 * sz" by auto
  with i False show ?thesis by (auto simp: next_power_of_two_def)
qed

lemma next_power_of_two_total: "\<exists>r. next_power_of_two sz = Some r \<and> 0 \<le> r"
proof (cases "0 < sz")
  case True
  from next_power_of_two_pos [OF this] show ?thesis by auto
next
  case False
  show ?thesis
  proof (cases "sz AND (sz - 1) = 0")
    case True
    with neg_and_pred [of sz] have "0 \<le> sz" by fastforce
    with True show ?thesis by (simp add: next_power_of_two_def)
  next
    case nz: False
    from False have "npot_loop 1 sz = Some 1" by (simp add: npot_loop.simps)
    with nz show ?thesis by (simp add: next_power_of_two_def)
  qed
qed

section \<open>Dictionary lookups\<close>

lemma get_update: "get (AList.update k v fl) k' = (if k' = k then v else get fl k')"
  by (simp add: get_def update_conv')

lemma get_setdefault_append:
  "get (setdefault_append fl k a) k' = (if k' = k then get fl k @ [a] else get fl k')"
  by (simp add: setdefault_append_def get_update)

lemma get_not_key: "k \<notin> fst ` set fl \<Longrightarrow> get fl k = []"
  by (cases "map_of fl k") (auto simp: get_def dest: map_of_SomeD intro: rev_image_eqI)

lemma key_lookup: "k \<in> fst ` set fl \<Longrightarrow> \<exists>l. map_of fl k = Some l"
  by (cases "map_of fl k") (auto simp: map_of_eq_None_iff)

section \<open>Outcomes of \<^verbatim>\<open>allocate\<close> and \<^verbatim>\<open>free\<close>\<close>

lemma split_loop_Some: "0 \<le> sz \<Longrightarrow> \<exists>fl'. split_loop fl address block_size sz = Some fl'"
proof (induction "nat block_size" arbitrary: fl block_size rule: less_induct)
  case less
  show ?case
  proof (cases "block_size > sz")
    case False
    then show ?thesis by (simp add: split_loop.simps)
  next
    case True
    with less.prems have "nat (block_size div 2) < nat block_size" by simp
    from less.hyps [OF this less.prems] True show ?thesis
      by (subst split_loop.simps) simp
  qed
qed

lemma scan_outcome:
  assumes "0 \<le> sz" "set ks \<subseteq> fst ` set (free_list st)"
  shows "(scan st sz ks = Some (Inl NoSuitableBlock, st) \<and> (\<forall>b\<in>set ks. sz \<le> b \<longrightarrow> get (free_list st) b = []))
       \<or> ((\<exists>a st'. scan st sz ks = Some (Inr a, st')) \<and> (\<exists>b\<in>set ks. sz \<le> b \<and> get (free_list st) b \<noteq> []))"
  using assms(2)
proof (induction ks)
  case Nil
  then show ?case by simp
next
  case (Cons b ks)
  then have IH: "(scan st sz ks = Some (Inl NoSuitableBlock, st) \<and> (\<forall>b\<in>set ks. sz \<le> b \<longrightarrow> get (free_list st) b = []))
       \<or> ((\<exists>a st'. scan st sz ks = Some (Inr a, st')) \<and> (\<exists>b\<in>set ks. sz \<le> b \<and> get (free_list st) b \<noteq> []))"
    by simp
  from Cons.prems obtain l where l: "map_of (free_list st) b = Some l"
    using key_lookup [of b "free_list st"] by auto
  show ?case
  proof (cases "sz \<le> b \<and> l \<noteq> []")
    case False
    with l have "scan st sz (b # ks) = scan st sz ks" "sz \<le> b \<longrightarrow> get (free_list st) b = []"
      by (auto simp: get_def split: list.splits)
    with IH show ?thesis by auto
  next
    case True
    then obtain a rest where ar: "l = a # rest" by (cases l) auto
    from split_loop_Some [OF assms(1)] obtain fl' where
      "split_loop (AList.update b rest (free_list st)) a b sz = Some fl'" by blast
    with True l ar have "\<exists>a st'. scan st sz (b # ks) = Some (Inr a, st')" by simp
    moreover from True l have "sz \<le> b \<and> get (free_list st) b \<noteq> []" by (simp add: get_def)
    ultimately show ?thesis by auto
  qed
qed


lemma scan_sorted_keys:
  assumes "0 \<le> sz"
  shows "(scan st sz (sort (map fst (free_list st))) = Some (Inl NoSuitableBlock, st)
          \<and> (\<forall>b. sz \<le> b \<longrightarrow> get (free_list st) b = []))
       \<or> ((\<exists>a st'. scan st sz (sort (map fst (free_list st))) = Some (Inr a, st'))
          \<and> (\<exists>b. sz \<le> b \<and> get (free_list st) b \<noteq> []))"
proof -
  have keys: "set (sort (map fst (free_list st))) = fst ` set (free_list st)" by simp
  from scan_outcome [OF assms, of "sort (map fst (free_list st))" st] keys
  show ?thesis
    using get_not_key [of _ "free_list st"] by (metis order_refl)
qed

lemma allocate_cases:
  "\<exists>r. next_power_of_two size0 = Some r \<and> 0 \<le> r \<and>
     (if r > total_memory st then allocate st size0 = Some (Inl RequestTooLarge, st)
      else if \<forall>B. r \<le> B \<longrightarrow> get (free_list st) B = []
        then allocate st size0 = Some (Inl NoSuitableBlock, st)
      else \<exists>a st'. allocate st size0 = Some (Inr a, st'))"
proof -
  from next_power_of_two_total obtain r where r: "next_power_of_two size0 = Some r" "0 \<le> r"
    by blast
  show ?thesis
  proof (cases "r > total_memory st")
    case True
    with r show ?thesis by (simp add: allocate_def)
  next
    case False
    with r have al: "allocate st size0 = scan st r (sort (map fst (free_list st)))"
      by (simp add: allocate_def)
    from scan_sorted_keys [OF r(2), of st] show ?thesis
    proof (elim disjE conjE exE)
      assume "scan st r (sort (map fst (free_list st))) = Some (Inl NoSuitableBlock, st)"
        "\<forall>b. r \<le> b \<longrightarrow> get (free_list st) b = []"
      with r False al show ?thesis by simp
    next
      fix a st' b
      assume "scan st r (sort (map fst (free_list st))) = Some (Inr a, st')"
        "r \<le> b" "get (free_list st) b \<noteq> []"
      with r False al show ?thesis by auto
    qed
  qed
qed

lemma free_success:
  assumes "next_power_of_two size0 = Some r" "r \<le> total_memory st"
    and "map_of (allocated st) address = Some r"
    and "merge_loop (total_memory st) (free_list st) address r = (fl', a', S')"
  shows "free st address size0 =
    Some (Inr (), st\<lparr>free_list := AList.update S' (sort (get fl' S' @ [a'])) fl',
                     allocated := AList.delete address (allocated st)\<rparr>)"
  using assms by (simp add: free_def setdefault_append_def get_update)

lemma free_cases:
  "\<exists>r. next_power_of_two size0 = Some r \<and> 0 \<le> r \<and>
     (if r > total_memory st then free st address size0 = Some (Inl RequestTooLarge, st)
      else if map_of (allocated st) address \<noteq> Some r
        then free st address size0 = Some (Inl InvalidFree, st)
      else \<exists>st'. free st address size0 = Some (Inr (), st'))"
proof -
  from next_power_of_two_total obtain r where r: "next_power_of_two size0 = Some r" "0 \<le> r"
    by blast
  obtain fl' a' S' where "merge_loop (total_memory st) (free_list st) address r = (fl', a', S')"
    by (cases "merge_loop (total_memory st) (free_list st) address r") auto
  from free_success [OF r(1) _ _ this] r show ?thesis
    by (auto simp: free_def)
qed

text \<open>
  Claim C5. For a positive requested size, \<^verbatim>\<open>allocate\<close> returns; it fails with
  \<open>RequestTooLarge\<close> exactly when the rounded size exceeds \<open>total_memory\<close>; when it
  does not, it fails with \<open>NoSuitableBlock\<close> exactly when no size \<open>B\<close> at or above the
  rounded size has a non-empty free list; and a failing call leaves the whole state
  (free list and allocated registry) as it was.
\<close>

theorem allocate_failures:
  assumes "0 < size0"
  shows "\<exists>r res st'. next_power_of_two size0 = Some r \<and> allocate st size0 = Some (res, st')
     \<and> (res = Inl RequestTooLarge \<longleftrightarrow> r > total_memory st)
     \<and> (\<not> r > total_memory st \<longrightarrow>
          (res = Inl NoSuitableBlock \<longleftrightarrow> (\<forall>B. r \<le> B \<longrightarrow> get (free_list st) B = [])))
     \<and> (isl res \<longrightarrow> st' = st)"
proof -
  from allocate_cases [of size0 st] obtain r where
    r: "next_power_of_two size0 = Some r"
      "if r > total_memory st then allocate st size0 = Some (Inl RequestTooLarge, st)
       else if \<forall>B. r \<le> B \<longrightarrow> get (free_list st) B = []
         then allocate st size0 = Some (Inl NoSuitableBlock, st)
       else \<exists>a st'. allocate st size0 = Some (Inr a, st')"
    by blast
  show ?thesis
  proof (cases "r > total_memory st")
    case True
    with r show ?thesis by simp
  next
    case False
    show ?thesis
    proof (cases "\<forall>B. r \<le> B \<longrightarrow> get (free_list st) B = []")
      case True
      with r False show ?thesis by simp
    next
      case none: False
      with r False obtain a st' where "allocate st size0 = Some (Inr a, st')" by auto
      with r(1) False none show ?thesis by simp
    qed
  qed
qed

text \<open>
  Claim C6. For a positive size, \<^verbatim>\<open>free\<close> returns; it fails with \<open>RequestTooLarge\<close>
  exactly when the rounded size exceeds \<open>total_memory\<close>; when it does not, it fails
  with \<open>InvalidFree\<close> exactly when the address is absent from \<open>allocated\<close> or its
  recorded size differs from the rounded size; and a failing call leaves the whole state
  as it was.
\<close>

theorem free_failures:
  assumes "0 < size0"
  shows "\<exists>r res st'. next_power_of_two size0 = Some r \<and> free st address size0 = Some (res, st')
     \<and> (res = Inl RequestTooLarge \<longleftrightarrow> r > total_memory st)
     \<and> (\<not> r > total_memory st \<longrightarrow>
          (res = Inl InvalidFree \<longleftrightarrow>
             (address \<notin> fst ` set (allocated st)
              \<or> (\<exists>s. map_of (allocated st) address = Some s \<and> s \<noteq> r))))
     \<and> (isl res \<longrightarrow> st' = st)"
proof -
  from free_cases [of size0 st address] obtain r where
    r: "next_power_of_two size0 = Some r"
      "if r > total_memory st then free st address size0 = Some (Inl RequestTooLarge, st)
       else if map_of (allocated st) address \<noteq> Some r
         then free st address size0 = Some (Inl InvalidFree, st)
       else \<exists>st'. free st address size0 = Some (Inr (), st')"
    by blast
  have absent: "address \<notin> fst ` set (allocated st) \<longleftrightarrow> map_of (allocated st) address = None"
    by (simp add: map_of_eq_None_iff)
  have bad: "map_of (allocated st) address \<noteq> Some r \<longleftrightarrow>
      address \<notin> fst ` set (allocated st)
      \<or> (\<exists>s. map_of (allocated st) address = Some s \<and> s \<noteq> r)"
    unfolding absent by (cases "map_of (allocated st) address") auto
  show ?thesis
  proof (cases "r > total_memory st")
    case True
    with r show ?thesis by simp
  next
    case False
    show ?thesis
    proof (cases "map_of (allocated st) address \<noteq> Some r")
      case True
      with r False bad show ?thesis by simp
    next
      case ok: False
      with r False obtain st' where "free st address size0 = Some (Inr (), st')" by auto
      with r(1) False ok bad show ?thesis by simp
    qed
  qed
qed

theorem allocate_failures_witness:
  "(0::int) < 3 \<and>
   (\<exists>r res st'. next_power_of_two 3 = Some r
     \<and> allocate \<lparr>total_memory = 8, free_list = [(8, [0])], allocated = []\<rparr> 3 = Some (res, st')
     \<and> (res = Inl RequestTooLarge \<longleftrightarrow> r > 8)
     \<and> (\<not> r > 8 \<longrightarrow> (res = Inl NoSuitableBlock \<longleftrightarrow> (\<forall>B. r \<le> B \<longrightarrow> get [(8, [0])] B = [])))
     \<and> (isl res \<longrightarrow> st' = \<lparr>total_memory = 8, free_list = [(8, [0])], allocated = []\<rparr>))"
  using allocate_failures [of 3 "\<lparr>total_memory = 8, free_list = [(8, [0])], allocated = []\<rparr>"]
  by simp

theorem free_failures_witness:
  "(0::int) < 3 \<and>
   (\<exists>r res st'. next_power_of_two 3 = Some r
     \<and> free \<lparr>total_memory = 8, free_list = [(8, []), (4, [4])], allocated = [(0, 4)]\<rparr> 0 3
         = Some (res, st')
     \<and> (res = Inl RequestTooLarge \<longleftrightarrow> r > 8)
     \<and> (\<not> r > 8 \<longrightarrow>
          (res = Inl InvalidFree \<longleftrightarrow>
             (0 \<notin> fst ` set [(0::int, 4::int)] \<or> (\<exists>s. map_of [(0::int, 4::int)] 0 = Some s \<and> s \<noteq> r))))
     \<and> (isl res \<longrightarrow>
          st' = \<lparr>total_memory = 8, free_list = [(8, []), (4, [4])], allocated = [(0, 4)]\<rparr>))"
  using free_failures
    [of 3 "\<lparr>total_memory = 8, free_list = [(8, []), (4, [4])], allocated = [(0, 4)]\<rparr>" 0]
  by simp

lemma split_loop_zero:
  "\<exists>fl'. split_loop fl 0 (2 ^ k) 0 = Some fl' \<and> get fl' 0 = get fl 0 @ [0]"
proof (induction k arbitrary: fl)
  case 0
  have "split_loop fl 0 (2 ^ 0) 0 = split_loop (setdefault_append fl 0 0) 0 0 0"
    by (subst split_loop.simps) simp
  also have "\<dots> = Some (setdefault_append fl 0 0)"
    by (subst split_loop.simps) simp
  finally show ?case by (simp add: get_setdefault_append)
next
  case (Suc k)
  have "split_loop fl 0 (2 ^ Suc k) 0 = split_loop (setdefault_append fl (2 ^ k) (2 ^ k)) 0 (2 ^ k) 0"
    by (subst split_loop.simps) simp
  with Suc [of "setdefault_append fl (2 ^ k) (2 ^ k)"] show ?case
    by (auto simp: get_setdefault_append)
qed

text \<open>
  Claim C9. On a fresh allocator over \<open>2 ^ k\<close> units, \<^verbatim>\<open>allocate(0)\<close> does not fail:
  the request is rounded to \<open>0\<close>, the splitting loop runs down to block size \<open>0\<close>, the
  call returns address \<open>0\<close>, records \<open>allocated[0] = 0\<close> and leaves address \<open>0\<close> in
  \<open>free_list[0]\<close> as well.
\<close>

theorem allocate_zero_fresh:
  assumes "construct (2 ^ k) = Inr st0"
  shows "\<exists>st1. allocate st0 0 = Some (Inr 0, st1) \<and> map_of (allocated st1) 0 = Some 0
            \<and> get (free_list st1) 0 = [0]"
proof -
  from assms have st0: "st0 = \<lparr>total_memory = 2 ^ k, free_list = [(2 ^ k, [0])], allocated = []\<rparr>"
    by (simp add: construct_def pow2_and_pred)
  from split_loop_zero [of "[(2 ^ k, [])]" k] obtain fl' where
    fl': "split_loop [(2 ^ k, [])] 0 (2 ^ k) 0 = Some fl'" "get fl' 0 = [0]"
    by (auto simp: get_def)
  have "next_power_of_two 0 = Some 0" by (simp add: next_power_of_two_def)
  with fl' show ?thesis by (simp add: allocate_def st0)
qed

theorem allocate_zero_fresh_witness:
  "construct (2 ^ 3) = Inr \<lparr>total_memory = 8, free_list = [(8, [0])], allocated = []\<rparr>
   \<and> (\<exists>st1. allocate \<lparr>total_memory = 8, free_list = [(8, [0])], allocated = []\<rparr> 0 = Some (Inr 0, st1)
         \<and> map_of (allocated st1) 0 = Some 0 \<and> get (free_list st1) 0 = [0])"
proof -
  have c: "construct (2 ^ 3) = Inr \<lparr>total_memory = 8, free_list = [(8, [0])], allocated = []\<rparr>"
    by (simp add: construct_def)
  from allocate_zero_fresh [OF c] c show ?thesis by simp
qed

text \<open>Construction succeeds for \<open>0\<close> and for the powers of two, and for nothing else.\<close>

lemma construct_succeeds_iff: "(\<exists>st. construct tm = Inr st) \<longleftrightarrow> tm = 0 \<or> (\<exists>k. tm = 2 ^ k)"
proof -
  have "tm AND (tm - 1) = 0 \<longleftrightarrow> tm = 0 \<or> (\<exists>k. tm = 2 ^ k)"
  proof
    assume z: "tm AND (tm - 1) = 0"
    with neg_and_pred [of tm] have "0 \<le> tm" by fastforce
    with z and_pred_zero_pow2 [of tm] show "tm = 0 \<or> (\<exists>k. tm = 2 ^ k)" by fastforce
  next
    assume "tm = 0 \<or> (\<exists>k. tm = 2 ^ k)"
    then show "tm AND (tm - 1) = 0" by (auto simp: pow2_and_pred)
  qed
  then show ?thesis by (simp add: construct_def)
qed

text \<open>
  Claim C2. The claim asks that construction fail with \<open>NotPowerOfTwo\<close> for every
  \<open>total_memory\<close> that is not a positive power of two, \<open>0\<close> included. The test
  \<^verbatim>\<open>total_memory & (total_memory - 1) != 0\<close> lets \<open>0\<close> through: construction with \<open>0\<close>
  succeeds, with \<open>free_list = {0: [0]}\<close>.
\<close>

theorem construct_zero:
  "construct 0 = Inr \<lparr>total_memory = 0, free_list = [(0, [0])], allocated = []\<rparr>"
  by (simp add: construct_def)

section \<open>Blocks as a multiset\<close>

lemma free_blocks_Nil [simp]: "free_blocks [] = []"
  by (simp add: free_blocks_def)

lemma free_blocks_Cons [simp]: "free_blocks ((k, l) # fl) = at_size k l @ free_blocks fl"
  by (simp add: free_blocks_def at_size_def)

lemma mset_free_blocks_update:
  "mset (free_blocks (AList.update k l' fl)) + mset (at_size k (get fl k))
     = mset (free_blocks fl) + mset (at_size k l')"
proof (induction fl)
  case Nil
  show ?case by (simp add: get_def at_size_def)
next
  case (Cons p fl)
  obtain k0 l0 where p: "p = (k0, l0)" by (cases p)
  show ?case
  proof (cases "k0 = k")
    case True
    with p show ?thesis by (simp add: get_def)
  next
    case False
    with p have "get (p # fl) k = get fl k" by (simp add: get_def)
    with False p Cons.IH show ?thesis by (simp add: add.assoc)
  qed
qed

lemma mem_free_blocks: "a \<in> set (get fl S) \<Longrightarrow> (a, S) \<in> set (free_blocks fl)"
proof (induction fl)
  case Nil
  then show ?case by (simp add: get_def)
next
  case (Cons p fl)
  obtain k0 l0 where p: "p = (k0, l0)" by (cases p)
  show ?case
  proof (cases "k0 = S")
    case True
    with p Cons.prems show ?thesis by (simp add: get_def at_size_def)
  next
    case False
    with p Cons.prems have "a \<in> set (get fl S)" by (simp add: get_def)
    with Cons.IH p show ?thesis by simp
  qed
qed

lemma free_blocks_mem:
  "distinct (map fst fl) \<Longrightarrow> (a, S) \<in> set (free_blocks fl) \<Longrightarrow> a \<in> set (get fl S)"
proof (induction fl)
  case Nil
  then show ?case by simp
next
  case (Cons p fl)
  obtain k0 l0 where p: "p = (k0, l0)" by (cases p)
  from Cons.prems p have "(a, S) \<in> set (at_size k0 l0) \<or> (a, S) \<in> set (free_blocks fl)" by simp
  then show ?case
  proof
    assume "(a, S) \<in> set (at_size k0 l0)"
    with p show ?thesis by (auto simp: at_size_def get_def)
  next
    assume m: "(a, S) \<in> set (free_blocks fl)"
    with Cons have g: "a \<in> set (get fl S)" by simp
    then have "S \<in> fst ` set fl"
      by (cases "map_of fl S") (auto simp: get_def dest: map_of_SomeD intro: rev_image_eqI)
    with Cons.prems(1) p have "k0 \<noteq> S" by auto
    with g p show ?thesis by (simp add: get_def)
  qed
qed

lemma update_fresh: "a \<notin> fst ` set al \<Longrightarrow> AList.update a v al = al @ [(a, v)]"
  by (induction al) auto

lemma delete_split:
  "distinct (map fst al) \<Longrightarrow> map_of al a = Some v \<Longrightarrow>
   \<exists>xs ys. al = xs @ (a, v) # ys \<and> AList.delete a al = xs @ ys"
proof (induction al)
  case Nil
  then show ?case by simp
next
  case (Cons p al)
  obtain k0 v0 where p: "p = (k0, v0)" by (cases p)
  show ?case
  proof (cases "k0 = a")
    case True
    with Cons.prems p have "v0 = v" "a \<notin> fst ` set al" by auto
    with True p have "p # al = [] @ (a, v) # al \<and> AList.delete a (p # al) = [] @ al"
      by (simp add: delete_id)
    then show ?thesis by blast
  next
    case False
    with Cons p obtain xs ys where "al = xs @ (a, v) # ys" "AList.delete a al = xs @ ys"
      by auto
    with False p have "p # al = (p # xs) @ (a, v) # ys \<and> AList.delete a (p # al) = (p # xs) @ ys"
      by simp
    then show ?thesis by blast
  qed
qed

lemma mset_delete:
  "distinct (map fst al) \<Longrightarrow> map_of al a = Some v \<Longrightarrow>
   add_mset (a, v) (mset (AList.delete a al)) = mset al"
  using delete_split [of al a v] by auto

section \<open>Tilings\<close>

lemma pow2_pos: "pow2 S \<Longrightarrow> 0 < S"
  by (auto simp: pow2_def)

lemma pow2_double: "pow2 S \<Longrightarrow> pow2 (2 * S)"
proof -
  assume "pow2 S"
  then obtain j where "S = 2 ^ j" by (auto simp: pow2_def)
  then have "2 * S = 2 ^ Suc j" by simp
  then show ?thesis unfolding pow2_def by blast
qed

lemma covering_add [simp]: "covering x (M + N) = covering x M + covering x N"
  by (simp add: covering_def)

lemma covering_add_mset [simp]:
  "covering x (add_mset b M) = (if x \<in> interval b then 1 else 0) + covering x M"
  by (simp add: covering_def)

lemma covering_empty [simp]: "covering x {#} = 0"
  by (simp add: covering_def)

lemma covering_member: "b \<in># M \<Longrightarrow> x \<in> interval b \<Longrightarrow> 1 \<le> covering x M"
  by (auto dest!: multi_member_split)

lemma tiling_cover: "tiling T M \<Longrightarrow> covering x M = (if 0 \<le> x \<and> x < T then 1 else 0)"
  by (simp add: tiling_def)

lemma tiling_aligned: "tiling T M \<Longrightarrow> (a, S) \<in># M \<Longrightarrow> pow2 S \<and> S dvd a"
  unfolding tiling_def by fastforce

lemma tiling_bounds:
  assumes "tiling T M" "(a, S) \<in># M"
  shows "0 < S \<and> 0 \<le> a \<and> a + S \<le> T"
proof -
  from tiling_aligned [OF assms] have S: "0 < S" by (simp add: pow2_pos)
  then have "a \<in> interval (a, S)" "a + S - 1 \<in> interval (a, S)" by (simp_all add: interval_def)
  with assms(2) have "1 \<le> covering a M" "1 \<le> covering (a + S - 1) M"
    using covering_member [of "(a, S)" M] by blast+
  with tiling_cover [OF assms(1)] have "0 \<le> a \<and> a < T" "a + S - 1 < T"
    by (auto split: if_splits)
  with S show ?thesis by simp
qed

lemma tiling_overlap:
  assumes "tiling T (add_mset b (add_mset c M))" "x \<in> interval b" "x \<in> interval c"
  shows False
proof -
  from assms(2,3) have "2 \<le> covering x (add_mset b (add_mset c M))" by simp
  with tiling_cover [OF assms(1), of x] show False by (auto split: if_splits)
qed

lemma covering_halves:
  assumes "0 < S"
  shows "covering x (add_mset (a, S) (add_mset (a + S, S) M)) = covering x (add_mset (a, 2 * S) M)"
proof -
  have "(if x \<in> interval (a, S) then 1 else 0) + (if x \<in> interval (a + S, S) then 1 else 0)
        = (if x \<in> interval (a, 2 * S) then 1 else (0::nat))"
    using assms by (auto simp: interval_def)
  then show ?thesis by simp
qed

lemma tiling_split:
  assumes "tiling T (add_mset (a, 2 * S) M)" "pow2 S"
  shows "tiling T (add_mset (a, S) (add_mset (a + S, S) M))"
  unfolding tiling_def
proof (intro conjI allI ballI)
  fix x
  from assms(2) have S: "0 < S" by (rule pow2_pos)
  show "covering x (add_mset (a, S) (add_mset (a + S, S) M)) = (if 0 \<le> x \<and> x < T then 1 else 0)"
    using tiling_cover [OF assms(1), of x] by (simp only: covering_halves [OF S])
next
  show "(\<Sum>b\<in>#add_mset (a, S) (add_mset (a + S, S) M). snd b) = T"
    using assms(1) by (simp add: tiling_def)
next
  fix b assume b: "b \<in># add_mset (a, S) (add_mset (a + S, S) M)"
  from assms(1) have d: "2 * S dvd a" by (simp add: tiling_def)
  then have "S dvd a" "S dvd a + S" by (auto elim: dvdE)
  with b assms show "pow2 (snd b)" "snd b dvd fst b" by (auto simp: tiling_def)
qed

lemma tiling_merge:
  assumes "tiling T (add_mset (a, S) (add_mset (a + S, S) M))" "2 * S dvd a"
  shows "tiling T (add_mset (a, 2 * S) M)"
  unfolding tiling_def
proof (intro conjI allI ballI)
  from assms(1) have p: "pow2 S" by (simp add: tiling_def)
  then have S: "0 < S" by (rule pow2_pos)
  fix x
  show "covering x (add_mset (a, 2 * S) M) = (if 0 \<le> x \<and> x < T then 1 else 0)"
    using tiling_cover [OF assms(1), of x] by (simp only: covering_halves [OF S])
next
  show "(\<Sum>b\<in>#add_mset (a, 2 * S) M. snd b) = T"
    using assms(1) by (simp add: tiling_def)
next
  fix b assume b: "b \<in># add_mset (a, 2 * S) M"
  from assms(1) have p: "pow2 S" by (simp add: tiling_def)
  with b assms show "pow2 (snd b)" "snd b dvd fst b" by (auto simp: tiling_def pow2_double)
qed

section \<open>Effects of the dictionary operations on the blocks\<close>

lemma mset_at_size: "mset (at_size k l) = image_mset (\<lambda>a. (a, k)) (mset l)"
  by (simp add: at_size_def)

lemma mset_free_blocks_append:
  "mset (free_blocks (setdefault_append fl k a)) = add_mset (a, k) (mset (free_blocks fl))"
  using mset_free_blocks_update [of k "get fl k @ [a]" fl]
  by (simp add: setdefault_append_def mset_at_size)

lemma mset_free_blocks_pop:
  assumes "map_of fl k = Some (a # rest)"
  shows "mset (free_blocks fl) = add_mset (a, k) (mset (free_blocks (AList.update k rest fl)))"
  using mset_free_blocks_update [of k rest fl] assms
  by (simp add: get_def mset_at_size)

lemma mset_free_blocks_remove1:
  assumes "b \<in> set (get fl k)"
  shows "mset (free_blocks fl)
         = add_mset (b, k) (mset (free_blocks (AList.update k (remove1 b (get fl k)) fl)))"
proof -
  from assms have "mset (get fl k) = add_mset b (mset (remove1 b (get fl k)))" by simp
  then have "mset (at_size k (get fl k))
             = add_mset (b, k) (mset (at_size k (remove1 b (get fl k))))"
    by (simp only: mset_at_size image_mset_add_mset)
  with mset_free_blocks_update [of k "remove1 b (get fl k)" fl] show ?thesis by simp
qed

lemma mset_free_blocks_sort:
  "mset (free_blocks (AList.update k (sort (get fl k)) fl)) = mset (free_blocks fl)"
  using mset_free_blocks_update [of k "sort (get fl k)" fl] by (simp add: mset_at_size)

section \<open>Buddies\<close>

lemma xor_twice: "(a XOR S) XOR S = (a::int)"
  by (simp add: xor.assoc)

lemma xor_neq: "S \<noteq> 0 \<Longrightarrow> a XOR S \<noteq> (a::int)"
proof
  assume "S \<noteq> 0" "a XOR S = a"
  then have "a XOR (a XOR S) = a XOR a" by simp
  then have "S = 0" by (simp flip: xor.assoc)
  with \<open>S \<noteq> 0\<close> show False by simp
qed

lemma buddy_pair:
  assumes "pow2 S" "S dvd a"
  shows "(a XOR S = a + S \<and> 2 * S dvd a) \<or> (a XOR S = a - S \<and> 2 * S dvd a - S)"
proof -
  from assms obtain j m where S: "S = 2 ^ j" and a: "a = 2 ^ j * m"
    by (auto simp: pow2_def elim: dvdE)
  show ?thesis
  proof (cases "even m")
    case True
    then obtain n where "m = 2 * n" by (auto elim: evenE)
    with True S a xor_pow2 [of j m] show ?thesis by (simp add: algebra_simps)
  next
    case False
    then obtain n where "m = 2 * n + 1" by (auto elim: oddE)
    with False S a xor_pow2 [of j m] show ?thesis by (simp add: algebra_simps)
  qed
qed

section \<open>The splitting loop\<close>

lemma split_loop_inv:
  assumes "i \<le> j"
    and "tiling T (add_mset (a, 2 ^ j) (mset (free_blocks fl) + M))"
    and "\<forall>S. 2 ^ i \<le> S \<and> S < 2 ^ j \<longrightarrow> get fl S = []"
    and "distinct (map fst fl)" "lists_sorted fl" "no_buddies fl"
  shows "\<exists>fl'. split_loop fl a (2 ^ j) (2 ^ i) = Some fl'
     \<and> tiling T (add_mset (a, 2 ^ i) (mset (free_blocks fl') + M))
     \<and> distinct (map fst fl') \<and> lists_sorted fl' \<and> no_buddies fl'
     \<and> (\<forall>S. get fl' S = (if \<exists>m. i \<le> m \<and> m < j \<and> S = 2 ^ m then [a + S] else get fl S))"
  using assms
proof (induction "j - i" arbitrary: j fl)
  case 0
  then have ji: "j = i" by simp
  then have sl: "split_loop fl a (2 ^ j) (2 ^ i) = Some fl" by (subst split_loop.simps) simp
  have g: "\<forall>S. get fl S = (if \<exists>m. i \<le> m \<and> m < j \<and> S = 2 ^ m then [a + S] else get fl S)"
    using ji by auto
  from "0.prems"(2) ji have "tiling T (add_mset (a, 2 ^ i) (mset (free_blocks fl) + M))" by simp
  with sl g "0.prems"(4-6) show ?case by blast
next
  case (Suc d)
  then obtain j' where j: "j = Suc j'" and ij: "i \<le> j'" and d: "d = j' - i"
    by (cases j) auto
  define h :: int where "h = 2 ^ j'"
  define fl1 where "fl1 = setdefault_append fl h (a + h)"
  have hpos: "0 < h" by (simp add: h_def)
  have lt: "(2::int) ^ i < 2 ^ j" unfolding j using ij by (intro power_strict_increasing) simp_all
  have le: "(2::int) ^ i \<le> h" unfolding h_def using ij by (intro power_increasing) simp_all
  have step: "split_loop fl a (2 ^ j) (2 ^ i) = split_loop fl1 a h (2 ^ i)"
    using lt by (subst split_loop.simps) (simp add: j h_def fl1_def)
  from Suc.prems(3) le have empty: "get fl h = []" by (simp add: j h_def)
  have g1: "get fl1 S = (if S = h then [a + h] else get fl S)" for S
    using empty by (simp add: fl1_def get_setdefault_append)
  have m1: "mset (free_blocks fl1) = add_mset (a + h, h) (mset (free_blocks fl))"
    by (simp add: fl1_def mset_free_blocks_append)
  have "tiling T (add_mset (a, 2 * h) (mset (free_blocks fl) + M))"
    using Suc.prems(2) by (simp add: j h_def)
  then have "tiling T (add_mset (a, h) (add_mset (a + h, h) (mset (free_blocks fl) + M)))"
    by (rule tiling_split) (auto simp: pow2_def h_def)
  then have t1: "tiling T (add_mset (a, 2 ^ j') (mset (free_blocks fl1) + M))"
    by (simp add: m1 h_def)
  have e1: "\<forall>S. 2 ^ i \<le> S \<and> S < 2 ^ j' \<longrightarrow> get fl1 S = []"
  proof (intro allI impI)
    fix S :: int assume S: "2 ^ i \<le> S \<and> S < 2 ^ j'"
    then have Sh: "S < h" by (simp add: h_def)
    have "(2::int) ^ j = 2 * h" by (simp add: j h_def)
    with Sh hpos have "S < 2 ^ j" "S \<noteq> h" by linarith+
    with S Suc.prems(3) show "get fl1 S = []" by (simp add: g1)
  qed
  have d1: "distinct (map fst fl1)"
    using Suc.prems(4) by (simp add: fl1_def setdefault_append_def distinct_update)
  have s1: "lists_sorted fl1"
    using Suc.prems(5) by (simp add: lists_sorted_def g1)
  have b1: "no_buddies fl1"
    using Suc.prems(6) hpos xor_neq [of h "a + h"] by (auto simp: no_buddies_def g1)
  from Suc.hyps(1) [OF d ij t1 e1 d1 s1 b1] obtain fl' where
    fl': "split_loop fl1 a (2 ^ j') (2 ^ i) = Some fl'"
      "tiling T (add_mset (a, 2 ^ i) (mset (free_blocks fl') + M))"
      "distinct (map fst fl')" "lists_sorted fl'" "no_buddies fl'"
      "\<forall>S. get fl' S = (if \<exists>m. i \<le> m \<and> m < j' \<and> S = 2 ^ m then [a + S] else get fl1 S)"
    by blast
  have "get fl' S = (if \<exists>m. i \<le> m \<and> m < j \<and> S = 2 ^ m then [a + S] else get fl S)" for S
  proof (cases "\<exists>m. i \<le> m \<and> m < j' \<and> S = 2 ^ m")
    case True
    then have inj: "\<exists>m. i \<le> m \<and> m < j \<and> S = 2 ^ m" using j by auto
    from True fl'(6) have "get fl' S = [a + S]" by auto
    with inj show ?thesis by auto
  next
    case False
    with fl'(6) have A: "get fl' S = get fl1 S" by auto
    show ?thesis
    proof (cases "S = h")
      case True
      then have inj: "\<exists>m. i \<le> m \<and> m < j \<and> S = 2 ^ m" using ij j h_def by auto
      from True A have "get fl' S = [a + S]" by (simp add: g1)
      with inj show ?thesis by auto
    next
      case nh: False
      have out: "\<not> (\<exists>m. i \<le> m \<and> m < j \<and> S = 2 ^ m)"
      proof
        assume "\<exists>m. i \<le> m \<and> m < j \<and> S = 2 ^ m"
        then obtain m where m: "i \<le> m" "m < j" "S = 2 ^ m" by blast
        with False have "m = j'" using j by (cases "m < j'") auto
        with m nh show False by (simp add: h_def)
      qed
      from nh A have "get fl' S = get fl S" by (simp add: g1)
      with out show ?thesis by auto
    qed
  qed
  with fl' step show ?case by (simp add: h_def)
qed

section \<open>The coalescing loop\<close>

lemma merge_loop_inv:
  assumes "tiling T (add_mset (a, S) (mset (free_blocks fl) + M))"
    and "distinct (map fst fl)" "lists_sorted fl" "no_buddies fl"
    and "merge_loop T fl a S = (fl', a', S')"
  shows "tiling T (add_mset (a', S') (mset (free_blocks fl') + M))
     \<and> distinct (map fst fl') \<and> lists_sorted fl' \<and> no_buddies fl'
     \<and> a' XOR S' \<notin> set (get fl' S')"
  using assms
proof (induction T fl a S rule: merge_loop.induct)
  case (1 tm fl address sz)
  let ?b = "address XOR sz"
  from tiling_bounds [OF "1.prems"(1), of address sz]
  have bnd: "0 < sz" "0 \<le> address" "address + sz \<le> tm" by simp_all
  show ?case
  proof (cases "sz < tm \<and> ?b \<in> set (get fl sz)")
    case False
    with "1.prems"(5) have res: "fl' = fl" "a' = address" "S' = sz"
      by (auto simp: merge_loop.simps [of tm fl address sz] split: if_splits)
    have "?b \<notin> set (get fl sz)"
    proof
      assume mem: "?b \<in> set (get fl sz)"
      with False have "tm \<le> sz" by simp
      with bnd have "address = 0" "sz = tm" by simp_all
      with mem have "tm \<in> set (get fl tm)" by simp
      then have "(tm, tm) \<in># add_mset (address, sz) (mset (free_blocks fl) + M)"
        using mem_free_blocks [of tm fl tm] by simp
      from tiling_bounds [OF "1.prems"(1) this] show False by linarith
    qed
    with res "1.prems" show ?thesis by simp
  next
    case True
    define fl1 where "fl1 = AList.update sz (remove1 ?b (get fl sz)) fl"
    from True have step: "merge_loop tm fl address sz = merge_loop tm fl1 (min address ?b) (sz * 2)"
      by (subst merge_loop.simps) (simp add: fl1_def)
    from True have m: "mset (free_blocks fl) = add_mset (?b, sz) (mset (free_blocks fl1))"
      unfolding fl1_def by (intro mset_free_blocks_remove1) simp
    from tiling_aligned [OF "1.prems"(1), of address sz] have al: "pow2 sz" "sz dvd address"
      by simp_all
    have t0: "tiling tm (add_mset (address, sz) (add_mset (?b, sz) (mset (free_blocks fl1) + M)))"
      using "1.prems"(1) by (simp add: m)
    have t1: "tiling tm (add_mset (min address ?b, sz * 2) (mset (free_blocks fl1) + M))"
    proof -
      from buddy_pair [OF al] show ?thesis
      proof (elim disjE conjE)
        assume up: "?b = address + sz" "2 * sz dvd address"
        with bnd have "min address ?b = address" by simp
        moreover from t0 up have "tiling tm (add_mset (address, 2 * sz) (mset (free_blocks fl1) + M))"
          by (intro tiling_merge) simp_all
        ultimately show ?thesis by (simp add: mult.commute)
      next
        assume down: "?b = address - sz" "2 * sz dvd address - sz"
        with bnd have mn: "min address ?b = ?b" by simp
        from t0 have "tiling tm (add_mset (?b, sz) (add_mset (address, sz) (mset (free_blocks fl1) + M)))"
          by (simp add: add_mset_commute)
        with down have "tiling tm (add_mset (?b, sz) (add_mset (?b + sz, sz) (mset (free_blocks fl1) + M)))"
          by simp
        with down have "tiling tm (add_mset (?b, 2 * sz) (mset (free_blocks fl1) + M))"
          by (intro tiling_merge) simp_all
        with mn show ?thesis by (simp add: mult.commute)
      qed
    qed
    have g1: "get fl1 k = (if k = sz then remove1 ?b (get fl sz) else get fl k)" for k
      by (simp add: fl1_def get_update)
    have d1: "distinct (map fst fl1)"
      using "1.prems"(2) by (simp add: fl1_def distinct_update)
    have s1: "lists_sorted fl1"
      using "1.prems"(3) by (simp add: lists_sorted_def g1 sorted_remove1)
    have b1: "no_buddies fl1"
      using "1.prems"(4) unfolding no_buddies_def g1
      by (metis notin_set_remove1)
    from "1.prems"(5) step have eq: "merge_loop tm fl1 (min address ?b) (sz * 2) = (fl', a', S')"
      by simp
    from True have c: "sz < tm" "?b \<in> set (get fl sz)" by simp_all
    from "1.IH" [OF c, folded fl1_def, OF t1 d1 s1 b1 eq] show ?thesis .
  qed
qed

section \<open>The scan over the sorted keys\<close>

lemma scan_Inr:
  assumes "sorted ks" "scan st sz ks = Some (Inr a, st')"
  shows "\<exists>B rest fl'. sz \<le> B \<and> map_of (free_list st) B = Some (a # rest)
     \<and> (\<forall>S\<in>set ks. sz \<le> S \<and> S < B \<longrightarrow> get (free_list st) S = [])
     \<and> B \<in> set ks
     \<and> split_loop (AList.update B rest (free_list st)) a B sz = Some fl'
     \<and> st' = st\<lparr>free_list := fl', allocated := AList.update a sz (allocated st)\<rparr>"
  using assms
proof (induction ks)
  case Nil
  then show ?case by simp
next
  case (Cons b ks)
  then have sorted: "sorted ks" "\<forall>S\<in>set ks. b \<le> S" by simp_all
  show ?case
  proof (cases "sz \<le> b \<and> (\<exists>x xs. map_of (free_list st) b = Some (x # xs))")
    case True
    then obtain x xs where x: "sz \<le> b" "map_of (free_list st) b = Some (x # xs)" by blast
    with Cons.prems(2) obtain fl' where
      fl': "split_loop (AList.update b xs (free_list st)) x b sz = Some fl'"
        "a = x" "st' = st\<lparr>free_list := fl', allocated := AList.update x sz (allocated st)\<rparr>"
      by (auto split: option.splits)
    have "\<forall>S\<in>set (b # ks). sz \<le> S \<and> S < b \<longrightarrow> get (free_list st) S = []"
      using sorted(2) by auto
    with x fl' show ?thesis by auto
  next
    case False
    have skip: "sz \<le> b \<longrightarrow> map_of (free_list st) b = None \<or> map_of (free_list st) b = Some []"
    proof (cases "map_of (free_list st) b")
      case None
      then show ?thesis by simp
    next
      case (Some l)
      with False show ?thesis by (cases l) auto
    qed
    with Cons.prems(2) have rec: "scan st sz ks = Some (Inr a, st')"
      by (auto split: if_splits)
    from skip have eb: "sz \<le> b \<longrightarrow> get (free_list st) b = []" by (auto simp: get_def)
    from Cons.IH [OF sorted(1) rec] obtain B rest fl' where
      B: "sz \<le> B" "map_of (free_list st) B = Some (a # rest)"
        "\<forall>S\<in>set ks. sz \<le> S \<and> S < B \<longrightarrow> get (free_list st) S = []" "B \<in> set ks"
        "split_loop (AList.update B rest (free_list st)) a B sz = Some fl'"
        "st' = st\<lparr>free_list := fl', allocated := AList.update a sz (allocated st)\<rparr>"
      by blast
    from B(3) eb have "\<forall>S\<in>set (b # ks). sz \<le> S \<and> S < B \<longrightarrow> get (free_list st) S = []"
      by simp
    with B show ?thesis by auto
  qed
qed

section \<open>The invariant is kept\<close>

lemma invariant_member:
  assumes "invariant st" "a \<in> set (get (free_list st) S)"
  shows "pow2 S \<and> S dvd a \<and> 0 \<le> a \<and> a + S \<le> total_memory st"
proof -
  from assms(2) have "(a, S) \<in># mset (blocks st)"
    using mem_free_blocks [of a "free_list st" S] by (simp add: blocks_def)
  with assms(1) tiling_aligned tiling_bounds show ?thesis
    unfolding invariant_def by blast
qed

lemma allocate_effect:
  assumes "invariant st" "0 < size0" "allocate st size0 = Some (Inr a, st')"
  shows "\<exists>i j rest. next_power_of_two size0 = Some (2 ^ i) \<and> i \<le> j
     \<and> get (free_list st) (2 ^ j) = a # rest
     \<and> (\<forall>S. 2 ^ i \<le> S \<and> S < 2 ^ j \<longrightarrow> get (free_list st) S = [])
     \<and> (\<forall>S. get (free_list st') S =
            (if \<exists>m. i \<le> m \<and> m < j \<and> S = 2 ^ m then [a + S]
             else if S = 2 ^ j then rest else get (free_list st) S))
     \<and> a \<notin> fst ` set (allocated st)
     \<and> allocated st' = allocated st @ [(a, 2 ^ i)]
     \<and> total_memory st' = total_memory st
     \<and> invariant st'"
proof -
  let ?T = "total_memory st" and ?fl = "free_list st" and ?al = "allocated st"
  from next_power_of_two_pos [OF assms(2)] obtain i where
    i: "next_power_of_two size0 = Some (2 ^ i)" by blast
  with assms(3) have le: "\<not> 2 ^ i > ?T"
    and sc: "scan st (2 ^ i) (sort (map fst ?fl)) = Some (Inr a, st')"
    by (auto simp: allocate_def split: if_splits)
  from scan_Inr [OF _ sc] obtain B rest fl' where
    B: "2 ^ i \<le> B" "map_of ?fl B = Some (a # rest)"
      "\<forall>S\<in>set (sort (map fst ?fl)). 2 ^ i \<le> S \<and> S < B \<longrightarrow> get ?fl S = []"
      "split_loop (AList.update B rest ?fl) a B (2 ^ i) = Some fl'"
      "st' = st\<lparr>free_list := fl', allocated := AList.update a (2 ^ i) ?al\<rparr>"
    by auto
  from B(2) have gB: "get ?fl B = a # rest" by (simp add: get_def)
  with invariant_member [OF assms(1), of a B] obtain j where j: "B = 2 ^ j"
    by (auto simp: pow2_def)
  from B(1) j have ij: "i \<le> j" by (simp add: power_le_imp_le_exp)
  have empty: "\<forall>S. 2 ^ i \<le> S \<and> S < 2 ^ j \<longrightarrow> get ?fl S = []"
  proof (intro allI impI)
    fix S :: int assume S: "2 ^ i \<le> S \<and> S < 2 ^ j"
    show "get ?fl S = []"
    proof (cases "S \<in> fst ` set ?fl")
      case True
      then have "S \<in> set (sort (map fst ?fl))" by simp
      with B(3) S j show ?thesis by blast
    next
      case False
      then show ?thesis by (rule get_not_key)
    qed
  qed
  from assms(1) have t: "tiling ?T (mset (free_blocks ?fl) + mset ?al)"
    and dk: "distinct (map fst ?fl)" "distinct (map fst ?al)"
    and so: "lists_sorted ?fl" and nb: "no_buddies ?fl"
    by (simp_all add: invariant_def blocks_def)
  define fl1 where "fl1 = AList.update B rest ?fl"
  have g1: "get fl1 S = (if S = B then rest else get ?fl S)" for S
    by (simp add: fl1_def get_update)
  have t1: "tiling ?T (add_mset (a, 2 ^ j) (mset (free_blocks fl1) + mset ?al))"
    using t mset_free_blocks_pop [OF B(2)] by (simp add: fl1_def j)
  have e1: "\<forall>S. 2 ^ i \<le> S \<and> S < 2 ^ j \<longrightarrow> get fl1 S = []"
    using empty j by (simp add: g1)
  have d1: "distinct (map fst fl1)" using dk(1) by (simp add: fl1_def distinct_update)
  from so have "sorted (get ?fl B)" by (simp add: lists_sorted_def)
  with gB have sr: "sorted rest" by simp
  have s1: "lists_sorted fl1"
    using so sr by (simp add: lists_sorted_def g1)
  have b1: "no_buddies fl1"
    unfolding no_buddies_def
  proof (intro allI impI)
    fix S x assume x: "x \<in> set (get fl1 S)"
    with gB have "x \<in> set (get ?fl S)" by (auto simp: g1 split: if_splits)
    with nb have "x XOR S \<notin> set (get ?fl S)" by (simp add: no_buddies_def)
    with gB show "x XOR S \<notin> set (get fl1 S)" by (auto simp: g1 split: if_splits)
  qed
  from split_loop_inv [OF ij t1 e1 d1 s1 b1] obtain fl2 where
    sl: "split_loop fl1 a (2 ^ j) (2 ^ i) = Some fl2"
    and t2': "tiling ?T (add_mset (a, 2 ^ i) (mset (free_blocks fl2) + mset ?al))"
    and d2': "distinct (map fst fl2)" and s2': "lists_sorted fl2" and b2': "no_buddies fl2"
    and g2': "\<forall>S. get fl2 S = (if \<exists>m. i \<le> m \<and> m < j \<and> S = 2 ^ m then [a + S] else get fl1 S)"
    by blast
  from sl B(4) have "fl2 = fl'" by (simp add: fl1_def j)
  note t2 = t2' [unfolded this] and d2 = d2' [unfolded this] and s2 = s2' [unfolded this]
    and b2 = b2' [unfolded this] and g2 = g2' [unfolded this]
  have fresh: "a \<notin> fst ` set ?al"
  proof
    assume "a \<in> fst ` set ?al"
    then obtain v where v: "(a, v) \<in> set ?al" by auto
    then have "(a, v) \<in># add_mset (a, 2 ^ i) (mset (free_blocks fl') + mset ?al)" by simp
    from tiling_bounds [OF t2 this] have "a \<in> interval (a, v)" by (simp add: interval_def)
    moreover have "a \<in> interval (a, 2 ^ i)" by (simp add: interval_def)
    moreover from v obtain M where "mset ?al = add_mset (a, v) M"
      by (metis multi_member_split set_mset_mset)
    with t2 have "tiling ?T (add_mset (a, 2 ^ i) (add_mset (a, v) (mset (free_blocks fl') + M)))"
      by simp
    ultimately show False using tiling_overlap by blast
  qed
  then have al': "AList.update a (2 ^ i) ?al = ?al @ [(a, 2 ^ i)]" by (rule update_fresh)
  with B(5) have st': "free_list st' = fl'" "allocated st' = ?al @ [(a, 2 ^ i)]"
    "total_memory st' = ?T" by simp_all
  have inv': "invariant st'"
    unfolding invariant_def st' blocks_def using t2 d2 s2 b2 dk(2) fresh by simp
  have g3: "\<forall>S. get (free_list st') S =
            (if \<exists>m. i \<le> m \<and> m < j \<and> S = 2 ^ m then [a + S]
             else if S = 2 ^ j then rest else get ?fl S)"
  proof
    fix S
    from g2 have e: "get fl' S = (if \<exists>m. i \<le> m \<and> m < j \<and> S = 2 ^ m then [a + S] else get fl1 S)"
      by blast
    show "get (free_list st') S =
            (if \<exists>m. i \<le> m \<and> m < j \<and> S = 2 ^ m then [a + S]
             else if S = 2 ^ j then rest else get ?fl S)"
      unfolding st'(1) e g1 j by (rule refl)
  qed
  from gB j have gj: "get ?fl (2 ^ j) = a # rest" by simp
  show ?thesis
    by (intro exI [of _ i] exI [of _ j] exI [of _ rest] conjI)
       (fact i ij gj empty g3 fresh st'(2) st'(3) inv')+
qed

lemma free_effect:
  assumes "invariant st" "free st address size0 = Some (Inr (), st')"
  shows "invariant st' \<and> total_memory st' = total_memory st"
proof -
  let ?T = "total_memory st" and ?fl = "free_list st" and ?al = "allocated st"
  from assms(2) obtain r where r: "next_power_of_two size0 = Some r" "r \<le> ?T"
    "map_of ?al address = Some r"
    by (auto simp: free_def split: option.splits if_splits)
  obtain fl' a' S' where ml: "merge_loop ?T ?fl address r = (fl', a', S')"
    by (cases "merge_loop ?T ?fl address r") auto
  define fl2 where "fl2 = AList.update S' (sort (get fl' S' @ [a'])) fl'"
  from free_success [OF r ml] assms(2)
  have st': "free_list st' = fl2" "allocated st' = AList.delete address ?al"
    "total_memory st' = ?T" by (simp_all add: fl2_def)
  from assms(1) have t: "tiling ?T (mset (free_blocks ?fl) + mset ?al)"
    and dk: "distinct (map fst ?fl)" "distinct (map fst ?al)"
    and so: "lists_sorted ?fl" and nb: "no_buddies ?fl"
    by (simp_all add: invariant_def blocks_def)
  from mset_delete [OF dk(2) r(3)] t
  have t0: "tiling ?T (add_mset (address, r) (mset (free_blocks ?fl) + mset (AList.delete address ?al)))"
    by (metis add_mset_add_single union_mset_add_mset_right)
  from merge_loop_inv [OF t0 dk(1) so nb ml]
  have t1: "tiling ?T (add_mset (a', S') (mset (free_blocks fl') + mset (AList.delete address ?al)))"
    and d1: "distinct (map fst fl')" and s1: "lists_sorted fl'" and b1: "no_buddies fl'"
    and nobuddy: "a' XOR S' \<notin> set (get fl' S')"
    by simp_all
  from tiling_aligned [OF t1, of a' S'] have "pow2 S'" by simp
  then have S0: "S' \<noteq> 0" using pow2_pos by fastforce
  from mset_free_blocks_update [of S' "sort (get fl' S' @ [a'])" fl']
  have m2: "mset (free_blocks fl2) = add_mset (a', S') (mset (free_blocks fl'))"
    by (simp add: fl2_def mset_at_size)
  have g2: "get fl2 k = (if k = S' then sort (get fl' S' @ [a']) else get fl' k)" for k
    by (simp add: fl2_def get_update)
  have d2: "distinct (map fst fl2)" using d1 by (simp add: fl2_def distinct_update)
  have s2: "lists_sorted fl2" using s1 by (simp add: lists_sorted_def g2)
  have b2: "no_buddies fl2"
    unfolding no_buddies_def
  proof (intro allI impI)
    fix S x assume x: "x \<in> set (get fl2 S)"
    show "x XOR S \<notin> set (get fl2 S)"
    proof (cases "S = S'")
      case False
      with x b1 show ?thesis by (simp add: g2 no_buddies_def)
    next
      case True
      with x have x': "x = a' \<or> x \<in> set (get fl' S')" by (auto simp: g2)
      have "x XOR S' \<noteq> a'"
      proof
        assume e: "x XOR S' = a'"
        then have "a' XOR S' = x" using xor_twice [of x S'] by simp
        with x' nobuddy have "x = a'" by auto
        with e xor_neq [OF S0, of a'] show False by simp
      qed
      moreover have "x XOR S' \<notin> set (get fl' S')"
        using x' nobuddy b1 by (auto simp: no_buddies_def)
      ultimately show ?thesis using True by (simp add: g2)
    qed
  qed
  have "tiling ?T (mset (free_blocks fl2) + mset (AList.delete address ?al))"
    using t1 by (simp add: m2)
  with d2 s2 b2 dk(2) st' show ?thesis
    by (simp add: invariant_def blocks_def distinct_delete)
qed

lemma construct_invariant:
  assumes "construct tm = Inr st" "0 < tm"
  shows "invariant st \<and> total_memory st = tm"
proof -
  from assms(1) have z: "tm AND (tm - 1) = 0"
    and st: "st = \<lparr>total_memory = tm, free_list = [(tm, [0])], allocated = []\<rparr>"
    by (auto simp: construct_def split: if_splits)
  from and_pred_zero_pow2 [OF assms(2) z] have p: "pow2 tm" by (simp add: pow2_def)
  have "tiling tm {#(0, tm)#}"
    using p by (auto simp: tiling_def interval_def)
  moreover have "get [(tm, [0])] S = (if S = tm then [0] else [])" for S
    by (simp add: get_def)
  ultimately show ?thesis using assms(2)
    by (simp add: invariant_def st blocks_def at_size_def lists_sorted_def no_buddies_def)
qed

lemma exec_invariant:
  assumes "invariant st" "positive x"
  shows "\<exists>st'. exec st x = Some st' \<and> invariant st' \<and> total_memory st' = total_memory st"
proof (cases x)
  case (Alloc size0)
  with assms(2) have pos: "0 < size0" by simp
  from allocate_cases [of size0 st] consider
    e where "allocate st size0 = Some (Inl e, st)" | a st' where "allocate st size0 = Some (Inr a, st')"
    by (auto split: if_splits)
  then show ?thesis
  proof cases
    case 1
    with assms(1) Alloc show ?thesis by simp
  next
    case 2
    from allocate_effect [OF assms(1) pos 2] 2 Alloc show ?thesis by auto
  qed
next
  case (Free address size0)
  from free_cases [of size0 st address] consider
    e where "free st address size0 = Some (Inl e, st)" | st' where "free st address size0 = Some (Inr (), st')"
    by (auto split: if_splits)
  then show ?thesis
  proof cases
    case 1
    with assms(1) Free show ?thesis by simp
  next
    case 2
    from free_effect [OF assms(1) 2] 2 Free show ?thesis by auto
  qed
qed

lemma run_invariant:
  assumes "invariant st" "\<forall>x\<in>set xs. positive x"
  shows "\<exists>st'. run st xs = Some st' \<and> invariant st' \<and> total_memory st' = total_memory st"
  using assms
proof (induction xs arbitrary: st)
  case Nil
  then show ?case by simp
next
  case (Cons x xs)
  from exec_invariant [OF Cons.prems(1), of x] Cons.prems(2) obtain st1 where
    st1: "exec st x = Some st1" "invariant st1" "total_memory st1 = total_memory st" by auto
  from Cons.IH [OF st1(2)] Cons.prems(2) st1 show ?case by auto
qed

lemma reachable_invariant:
  assumes "construct tm = Inr st0" "0 < tm" "\<forall>x\<in>set xs. positive x"
  shows "\<exists>st. run st0 xs = Some st \<and> invariant st \<and> total_memory st = tm"
  using construct_invariant [OF assms(1,2)] run_invariant [OF _ assms(3), of st0] by auto

section \<open>Reachable states\<close>

lemma entry_get: "distinct (map fst fl) \<Longrightarrow> (S, l) \<in> set fl \<Longrightarrow> get fl S = l"
  by (simp add: get_def)

lemma covering_pos_iff: "0 < covering x M \<longleftrightarrow> (\<exists>b\<in>#M. x \<in> interval b)"
proof
  assume "0 < covering x M"
  then have "filter_mset (\<lambda>b. x \<in> interval b) M \<noteq> {#}"
    unfolding covering_def using nonempty_has_size by blast
  then obtain b where "b \<in># filter_mset (\<lambda>b. x \<in> interval b) M"
    using multiset_nonemptyE by blast
  then show "\<exists>b\<in>#M. x \<in> interval b" by auto
next
  assume "\<exists>b\<in>#M. x \<in> interval b"
  then obtain b where "b \<in># M" "x \<in> interval b" by blast
  from covering_member [OF this] show "0 < covering x M" by simp
qed

lemma no_overlap_covering: "(\<forall>x. covering x (mset bs) \<le> 1) \<Longrightarrow> no_overlap bs"
proof (induction bs)
  case Nil
  show ?case by simp
next
  case (Cons b bs)
  have "covering x (mset bs) \<le> 1" for x
    using Cons.prems [rule_format, of x] by (simp split: if_splits)
  with Cons.IH have "no_overlap bs" by simp
  moreover have "interval b \<inter> interval c = {}" if c: "c \<in> set bs" for c
  proof (rule ccontr)
    assume "interval b \<inter> interval c \<noteq> {}"
    then obtain x where x: "x \<in> interval b" "x \<in> interval c" by auto
    with c have "0 < covering x (mset bs)" by (auto simp: covering_pos_iff)
    with x(1) Cons.prems [rule_format, of x] show False by simp
  qed
  ultimately show ?case by simp
qed

lemma tiling_partition:
  assumes "tiling T (mset bs)"
  shows "no_overlap bs \<and> (\<Union>b\<in>set bs. interval b) = {0..<T} \<and> sum_list (map snd bs) = T"
proof (intro conjI)
  have c: "covering x (mset bs) = (if 0 \<le> x \<and> x < T then 1 else 0)" for x
    using assms by (rule tiling_cover)
  then show "no_overlap bs" by (intro no_overlap_covering) simp
  have "x \<in> (\<Union>b\<in>set bs. interval b) \<longleftrightarrow> x \<in> {0..<T}" for x
    using covering_pos_iff [of x "mset bs"] c [of x] by (simp split: if_splits)
  then show "(\<Union>b\<in>set bs. interval b) = {0..<T}" by blast
  have "sum_list (map snd bs) = (\<Sum>b\<in>#mset bs. snd b)"
    by (simp flip: sum_mset_sum_list)
  with assms show "sum_list (map snd bs) = T" by (simp add: tiling_def)
qed

lemma example_run:
  "run \<lparr>total_memory = 8, free_list = [(8, [0])], allocated = []\<rparr>
       [Alloc 3, Alloc 1, Free 0 3, Alloc 9, Free 5 1]
   = Some \<lparr>total_memory = 8, free_list = [(8, []), (4, [0]), (2, [6]), (1, [5])],
            allocated = [(4, 1)]\<rparr>"
  by code_simp

lemma example_construct:
  "construct 8 = Inr \<lparr>total_memory = 8, free_list = [(8, [0])], allocated = []\<rparr>"
  by (simp add: construct_def)

lemma example_positive:
  "\<forall>x\<in>set [Alloc 3, Alloc 1, Free 0 3, Alloc 9, Free 5 1]. positive x"
  by simp

text \<open>
  Claim C1. From a fresh allocator over a positive \<open>total_memory\<close>, every sequence of
  \<^verbatim>\<open>allocate\<close> and \<^verbatim>\<open>free\<close> calls with positive sizes, the failing calls included, runs
  to a state in which the intervals of the free and the allocated blocks do not overlap,
  their union is \<open>[0, total_memory)\<close>, and the allocated sizes plus the free sizes add up
  to \<open>total_memory\<close>.
\<close>

theorem conservation:
  assumes "construct tm = Inr st0" "0 < tm" "\<forall>x\<in>set xs. positive x"
  shows "\<exists>st. run st0 xs = Some st \<and> total_memory st = tm
     \<and> no_overlap (blocks st)
     \<and> (\<Union>b\<in>set (blocks st). interval b) = {0..<tm}
     \<and> sum_list (map snd (allocated st)) + sum_list (map snd (free_blocks (free_list st))) = tm"
proof -
  from reachable_invariant [OF assms] obtain st where
    st: "run st0 xs = Some st" "invariant st" "total_memory st = tm" by blast
  then have "tiling tm (mset (blocks st))" by (simp add: invariant_def)
  from tiling_partition [OF this] st(1,3) show ?thesis by (auto simp: blocks_def)
qed

theorem conservation_witness:
  "construct 8 = Inr \<lparr>total_memory = 8, free_list = [(8, [0])], allocated = []\<rparr>
   \<and> (0::int) < 8
   \<and> positive (Alloc 3) \<and> positive (Alloc 1) \<and> positive (Free 0 3) \<and> positive (Alloc 9)
   \<and> positive (Free 5 1)
   \<and> run \<lparr>total_memory = 8, free_list = [(8, [0])], allocated = []\<rparr>
         [Alloc 3, Alloc 1, Free 0 3, Alloc 9, Free 5 1]
       = Some \<lparr>total_memory = 8, free_list = [(8, []), (4, [0]), (2, [6]), (1, [5])],
                allocated = [(4, 1)]\<rparr>
   \<and> no_overlap [(0, 4), (6, 2), (5, 1), (4, 1)]
   \<and> (\<Union>b\<in>set [(0, 4), (6, 2), (5, 1), (4, 1)]. interval b) = {0..<8}
   \<and> sum_list (map snd [(4::int, 1::int)]) + sum_list (map snd [(0::int, 4::int), (6, 2), (5, 1)]) = 8"
proof -
  have "(0::int) < 8" by simp
  from conservation [OF example_construct this example_positive] obtain st where
    st: "run \<lparr>total_memory = 8, free_list = [(8, [0])], allocated = []\<rparr>
           [Alloc 3, Alloc 1, Free 0 3, Alloc 9, Free 5 1] = Some st"
      "no_overlap (blocks st)" "(\<Union>b\<in>set (blocks st). interval b) = {0..<8}"
    by blast
  from st(1) have "st = \<lparr>total_memory = 8, free_list = [(8, []), (4, [0]), (2, [6]), (1, [5])],
                allocated = [(4, 1)]\<rparr>"
    unfolding example_run by simp
  with st(2,3) have "no_overlap [(0, 4), (6, 2), (5, 1), (4, 1)]"
    "(\<Union>b\<in>set [(0, 4), (6, 2), (5, 1), (4, 1)]. interval b) = {0..<8}"
    by (simp_all add: blocks_def free_blocks_def)
  with example_run example_construct show ?thesis by simp
qed

text \<open>
  Claim C7. In every state reached from a fresh allocator by calls with positive sizes,
  every address in the free list under size \<open>S\<close> is a multiple of \<open>S\<close>, every allocated
  address is a multiple of its recorded size, and an \<^verbatim>\<open>allocate(s)\<close> that succeeds returns
  an address \<open>a\<close> with \<open>a mod next_power_of_two(s) = 0\<close>.
\<close>

theorem alignment:
  assumes "construct tm = Inr st0" "0 < tm" "\<forall>x\<in>set xs. positive x"
  shows "\<exists>st. run st0 xs = Some st
     \<and> (\<forall>(S, l)\<in>set (free_list st). \<forall>a\<in>set l. a mod S = 0)
     \<and> (\<forall>(a, S)\<in>set (allocated st). a mod S = 0)
     \<and> (\<forall>size0 a st'. 0 < size0 \<longrightarrow> allocate st size0 = Some (Inr a, st') \<longrightarrow>
           (\<exists>r. next_power_of_two size0 = Some r \<and> a mod r = 0))"
proof -
  from reachable_invariant [OF assms] obtain st where
    st: "run st0 xs = Some st" "invariant st" by blast
  have al: "a mod S = 0" if "(a, S) \<in> set (allocated st)" for a S
  proof -
    from that have "(a, S) \<in># mset (blocks st)" by (simp add: blocks_def)
    with st(2) tiling_aligned have "S dvd a" unfolding invariant_def by blast
    then show ?thesis by simp
  qed
  have fr: "a mod S = 0" if "(S, l) \<in> set (free_list st)" "a \<in> set l" for a S l
  proof -
    from st(2) that(1) have "get (free_list st) S = l"
      by (intro entry_get) (simp_all add: invariant_def)
    with invariant_member [OF st(2), of a S] that(2) show ?thesis by simp
  qed
  have ret: "\<exists>r. next_power_of_two size0 = Some r \<and> a mod r = 0"
    if "0 < size0" "allocate st size0 = Some (Inr a, st')" for size0 a st'
  proof -
    from allocate_effect [OF st(2) that] obtain i where
      i: "next_power_of_two size0 = Some (2 ^ i)" "allocated st' = allocated st @ [(a, 2 ^ i)]"
        "invariant st'" by blast
    then have "(a, 2 ^ i) \<in># mset (blocks st')" by (simp add: blocks_def)
    with i(3) tiling_aligned have "2 ^ i dvd a" unfolding invariant_def by blast
    with i(1) show ?thesis by simp
  qed
  from st(1) al fr ret show ?thesis by blast
qed

theorem alignment_witness:
  "construct 8 = Inr \<lparr>total_memory = 8, free_list = [(8, [0])], allocated = []\<rparr>
   \<and> (0::int) < 8
   \<and> positive (Alloc 3) \<and> positive (Alloc 1) \<and> positive (Free 0 3) \<and> positive (Alloc 9)
   \<and> positive (Free 5 1)
   \<and> run \<lparr>total_memory = 8, free_list = [(8, [0])], allocated = []\<rparr>
         [Alloc 3, Alloc 1, Free 0 3, Alloc 9, Free 5 1]
       = Some \<lparr>total_memory = 8, free_list = [(8, []), (4, [0]), (2, [6]), (1, [5])],
                allocated = [(4, 1)]\<rparr>
   \<and> (0::int) mod 4 = 0 \<and> (6::int) mod 2 = 0 \<and> (5::int) mod 1 = 0 \<and> (4::int) mod 1 = 0
   \<and> allocate \<lparr>total_memory = 8, free_list = [(8, []), (4, [0]), (2, [6]), (1, [5])],
                 allocated = [(4, 1)]\<rparr> 2
        = Some (Inr 6, \<lparr>total_memory = 8, free_list = [(8, []), (4, [0]), (2, []), (1, [5])],
                        allocated = [(4, 1), (6, 2)]\<rparr>)
   \<and> next_power_of_two 2 = Some 2"
proof -
  have "(0::int) < 8" by simp
  from alignment [OF example_construct this example_positive] obtain st where
    st: "run \<lparr>total_memory = 8, free_list = [(8, [0])], allocated = []\<rparr>
           [Alloc 3, Alloc 1, Free 0 3, Alloc 9, Free 5 1] = Some st"
      "\<forall>(S, l)\<in>set (free_list st). \<forall>a\<in>set l. a mod S = 0"
      "\<forall>(a, S)\<in>set (allocated st). a mod S = 0"
    by blast
  from st(1) have "st = \<lparr>total_memory = 8, free_list = [(8, []), (4, [0]), (2, [6]), (1, [5])],
                allocated = [(4, 1)]\<rparr>"
    unfolding example_run by simp
  with st(2,3) have "(0::int) mod 4 = 0 \<and> (6::int) mod 2 = 0 \<and> (5::int) mod 1 = 0 \<and> (4::int) mod 1 = 0"
    by simp
  moreover have "allocate \<lparr>total_memory = 8, free_list = [(8, []), (4, [0]), (2, [6]), (1, [5])],
                 allocated = [(4, 1)]\<rparr> 2
        = Some (Inr 6, \<lparr>total_memory = 8, free_list = [(8, []), (4, [0]), (2, []), (1, [5])],
                        allocated = [(4, 1), (6, 2)]\<rparr>)"
    by code_simp
  moreover have "next_power_of_two 2 = Some 2" by code_simp
  ultimately show ?thesis using example_construct example_run by simp
qed

text \<open>
  Claim C10. In every state reached from a fresh allocator by calls with positive sizes,
  no free list holds both an address \<open>A\<close> and its buddy \<open>A XOR S\<close>: two free buddies of
  the same size never coexist.
\<close>

theorem no_free_buddies:
  assumes "construct tm = Inr st0" "0 < tm" "\<forall>x\<in>set xs. positive x"
  shows "\<exists>st. run st0 xs = Some st
     \<and> (\<forall>(S, l)\<in>set (free_list st). \<forall>A\<in>set l. A XOR S \<notin> set l)"
proof -
  from reachable_invariant [OF assms] obtain st where
    st: "run st0 xs = Some st" "invariant st" by blast
  have "A XOR S \<notin> set l" if "(S, l) \<in> set (free_list st)" "A \<in> set l" for S l A
  proof -
    from st(2) that(1) have "get (free_list st) S = l"
      by (intro entry_get) (simp_all add: invariant_def)
    with st(2) that(2) show ?thesis by (auto simp: invariant_def no_buddies_def)
  qed
  with st(1) show ?thesis by blast
qed

theorem no_free_buddies_witness:
  "construct 8 = Inr \<lparr>total_memory = 8, free_list = [(8, [0])], allocated = []\<rparr>
   \<and> (0::int) < 8
   \<and> positive (Alloc 3) \<and> positive (Alloc 1) \<and> positive (Free 0 3) \<and> positive (Alloc 9)
   \<and> positive (Free 5 1)
   \<and> run \<lparr>total_memory = 8, free_list = [(8, [0])], allocated = []\<rparr>
         [Alloc 3, Alloc 1, Free 0 3, Alloc 9, Free 5 1]
       = Some \<lparr>total_memory = 8, free_list = [(8, []), (4, [0]), (2, [6]), (1, [5])],
                allocated = [(4, 1)]\<rparr>
   \<and> (0::int) XOR 4 \<notin> set [0] \<and> (6::int) XOR 2 \<notin> set [6] \<and> (5::int) XOR 1 \<notin> set [5]"
proof -
  have "(0::int) < 8" by simp
  from no_free_buddies [OF example_construct this example_positive] obtain st where
    st: "run \<lparr>total_memory = 8, free_list = [(8, [0])], allocated = []\<rparr>
           [Alloc 3, Alloc 1, Free 0 3, Alloc 9, Free 5 1] = Some st"
      "\<forall>(S, l)\<in>set (free_list st). \<forall>A\<in>set l. A XOR S \<notin> set l"
    by blast
  from st(1) have "st = \<lparr>total_memory = 8, free_list = [(8, []), (4, [0]), (2, [6]), (1, [5])],
                allocated = [(4, 1)]\<rparr>"
    unfolding example_run by simp
  with st(2) have "(0::int) XOR 4 \<notin> set [0] \<and> (6::int) XOR 2 \<notin> set [6] \<and> (5::int) XOR 1 \<notin> set [5]"
    by simp
  with example_construct example_run show ?thesis by simp
qed

text \<open>
  Claim C4. In every state reached from a fresh allocator by calls with positive sizes,
  every free list is sorted ascending; and when \<^verbatim>\<open>allocate\<close> succeeds, the block size
  \<open>B\<close> it takes from is the least size at or above the rounded request with a non-empty
  free list, and the address it returns and removes is the least address of
  \<open>free_list[B]\<close>.
\<close>

theorem lowest_address:
  assumes "construct tm = Inr st0" "0 < tm" "\<forall>x\<in>set xs. positive x"
  shows "\<exists>st. run st0 xs = Some st
     \<and> (\<forall>(S, l)\<in>set (free_list st). sorted l)
     \<and> (\<forall>size0 a st'. 0 < size0 \<longrightarrow> allocate st size0 = Some (Inr a, st') \<longrightarrow>
           (\<exists>r B. next_power_of_two size0 = Some r \<and> r \<le> B
              \<and> get (free_list st) B \<noteq> []
              \<and> (\<forall>B'. r \<le> B' \<and> B' < B \<longrightarrow> get (free_list st) B' = [])
              \<and> a = Min (set (get (free_list st) B))
              \<and> get (free_list st') B = remove1 a (get (free_list st) B)))"
proof -
  from reachable_invariant [OF assms] obtain st where
    st: "run st0 xs = Some st" "invariant st" by blast
  have so: "sorted l" if "(S, l) \<in> set (free_list st)" for S l
  proof -
    from st(2) that have "get (free_list st) S = l"
      by (intro entry_get) (simp_all add: invariant_def)
    with st(2) show ?thesis by (auto simp: invariant_def lists_sorted_def)
  qed
  have pick: "\<exists>r B. next_power_of_two size0 = Some r \<and> r \<le> B
              \<and> get (free_list st) B \<noteq> []
              \<and> (\<forall>B'. r \<le> B' \<and> B' < B \<longrightarrow> get (free_list st) B' = [])
              \<and> a = Min (set (get (free_list st) B))
              \<and> get (free_list st') B = remove1 a (get (free_list st) B)"
    if "0 < size0" "allocate st size0 = Some (Inr a, st')" for size0 a st'
  proof -
    from allocate_effect [OF st(2) that] obtain i j rest where
      e: "next_power_of_two size0 = Some (2 ^ i)" "i \<le> j"
        "get (free_list st) (2 ^ j) = a # rest"
        "\<forall>S. 2 ^ i \<le> S \<and> S < 2 ^ j \<longrightarrow> get (free_list st) S = []"
        "\<forall>S. get (free_list st') S =
            (if \<exists>m. i \<le> m \<and> m < j \<and> S = 2 ^ m then [a + S]
             else if S = 2 ^ j then rest else get (free_list st) S)"
      by blast
    from e(2) have le: "(2::int) ^ i \<le> 2 ^ j" by (intro power_increasing) simp_all
    from st(2) have "sorted (get (free_list st) (2 ^ j))"
      by (simp add: invariant_def lists_sorted_def)
    with e(3) have "sorted (a # rest)" by simp
    then have "Min (set (a # rest)) = a" by (intro Min_eqI) auto
    with e(3) have mn: "a = Min (set (get (free_list st) (2 ^ j)))" by simp
    have "\<not> (\<exists>m. i \<le> m \<and> m < j \<and> (2::int) ^ j = 2 ^ m)" by auto
    with e(5) have "get (free_list st') (2 ^ j) = rest" by simp
    with e(3) have rm: "get (free_list st') (2 ^ j) = remove1 a (get (free_list st) (2 ^ j))"
      by simp
    from e(3) have ne: "get (free_list st) (2 ^ j) \<noteq> []" by simp
    show ?thesis
      by (intro exI [of _ "2 ^ i"] exI [of _ "2 ^ j"] conjI) (fact e(1) le ne e(4) mn rm)+
  qed
  from st(1) so pick show ?thesis by blast
qed

theorem lowest_address_witness:
  "construct 8 = Inr \<lparr>total_memory = 8, free_list = [(8, [0])], allocated = []\<rparr>
   \<and> (0::int) < 8
   \<and> positive (Alloc 3) \<and> positive (Alloc 1) \<and> positive (Free 0 3) \<and> positive (Alloc 9)
   \<and> positive (Free 5 1)
   \<and> run \<lparr>total_memory = 8, free_list = [(8, [0])], allocated = []\<rparr>
         [Alloc 3, Alloc 1, Free 0 3, Alloc 9, Free 5 1]
       = Some \<lparr>total_memory = 8, free_list = [(8, []), (4, [0]), (2, [6]), (1, [5])],
                allocated = [(4, 1)]\<rparr>
   \<and> sorted ([] :: int list) \<and> sorted [0::int] \<and> sorted [6::int] \<and> sorted [5::int]
   \<and> (0::int) < 2
   \<and> allocate \<lparr>total_memory = 8, free_list = [(8, []), (4, [0]), (2, [6]), (1, [5])],
                 allocated = [(4, 1)]\<rparr> 2
        = Some (Inr 6, \<lparr>total_memory = 8, free_list = [(8, []), (4, [0]), (2, []), (1, [5])],
                        allocated = [(4, 1), (6, 2)]\<rparr>)
   \<and> (\<exists>r B. next_power_of_two 2 = Some r \<and> r \<le> B
         \<and> get [(8, []), (4, [0]), (2, [6]), (1, [5])] B \<noteq> []
         \<and> (\<forall>B'. r \<le> B' \<and> B' < B \<longrightarrow> get [(8, []), (4, [0]), (2, [6]), (1, [5])] B' = [])
         \<and> 6 = Min (set (get [(8, []), (4, [0]), (2, [6]), (1, [5])] B))
         \<and> get [(8, []), (4, [0]), (2, []), (1, [5])] B
             = remove1 6 (get [(8, []), (4, [0]), (2, [6]), (1, [5])] B))"
proof -
  have "(0::int) < 8" by simp
  from lowest_address [OF example_construct this example_positive] obtain st where
    st: "run \<lparr>total_memory = 8, free_list = [(8, [0])], allocated = []\<rparr>
           [Alloc 3, Alloc 1, Free 0 3, Alloc 9, Free 5 1] = Some st"
      "\<forall>size0 a st'. 0 < size0 \<longrightarrow> allocate st size0 = Some (Inr a, st') \<longrightarrow>
           (\<exists>r B. next_power_of_two size0 = Some r \<and> r \<le> B
              \<and> get (free_list st) B \<noteq> []
              \<and> (\<forall>B'. r \<le> B' \<and> B' < B \<longrightarrow> get (free_list st) B' = [])
              \<and> a = Min (set (get (free_list st) B))
              \<and> get (free_list st') B = remove1 a (get (free_list st) B))"
    by blast
  from st(1) have eq: "st = \<lparr>total_memory = 8, free_list = [(8, []), (4, [0]), (2, [6]), (1, [5])],
                allocated = [(4, 1)]\<rparr>"
    unfolding example_run by simp
  have al: "allocate \<lparr>total_memory = 8, free_list = [(8, []), (4, [0]), (2, [6]), (1, [5])],
                 allocated = [(4, 1)]\<rparr> 2
        = Some (Inr 6, \<lparr>total_memory = 8, free_list = [(8, []), (4, [0]), (2, []), (1, [5])],
                        allocated = [(4, 1), (6, 2)]\<rparr>)"
    by code_simp
  from st(2) [unfolded eq, rule_format, OF _ al]
  have "\<exists>r B. next_power_of_two 2 = Some r \<and> r \<le> B
         \<and> get [(8, []), (4, [0]), (2, [6]), (1, [5])] B \<noteq> []
         \<and> (\<forall>B'. r \<le> B' \<and> B' < B \<longrightarrow> get [(8, []), (4, [0]), (2, [6]), (1, [5])] B' = [])
         \<and> 6 = Min (set (get [(8, []), (4, [0]), (2, [6]), (1, [5])] B))
         \<and> get [(8, []), (4, [0]), (2, []), (1, [5])] B
             = remove1 6 (get [(8, []), (4, [0]), (2, [6]), (1, [5])] B)"
    by simp
  with al example_construct example_run show ?thesis by simp
qed

section \<open>Freeing what was just allocated\<close>

lemma merge_loop_up:
  assumes "i \<le> j" "2 ^ j dvd a" "2 ^ j \<le> T"
    and "\<forall>m. i \<le> m \<and> m < j \<longrightarrow> get fl (2 ^ m) = [a + 2 ^ m]"
    and "a XOR 2 ^ j \<notin> set (get fl (2 ^ j))"
  shows "\<exists>fl'. merge_loop T fl a (2 ^ i) = (fl', a, 2 ^ j)
     \<and> (\<forall>S. get fl' S = (if \<exists>m. i \<le> m \<and> m < j \<and> S = 2 ^ m then [] else get fl S))"
  using assms
proof (induction "j - i" arbitrary: i fl)
  case 0
  then have ji: "i = j" by simp
  with "0.prems"(5) have "merge_loop T fl a (2 ^ i) = (fl, a, 2 ^ j)"
    by (subst merge_loop.simps) simp
  moreover have "\<forall>S. get fl S = (if \<exists>m. i \<le> m \<and> m < j \<and> S = 2 ^ m then [] else get fl S)"
    using ji by auto
  ultimately show ?case by blast
next
  case (Suc d)
  then have ij: "Suc i \<le> j" and d: "d = j - Suc i" by simp_all
  define s :: int where "s = 2 ^ i"
  have spos: "0 < s" by (simp add: s_def)
  have s2: "2 * s = 2 ^ Suc i" by (simp add: s_def)
  have "(2::int) ^ Suc i \<le> 2 ^ j" using ij by (intro power_increasing) simp_all
  with s2 spos Suc.prems(3) have lt: "s < T" by linarith
  from ij have "(2::int) ^ Suc i dvd 2 ^ j" by (intro le_imp_power_dvd)
  with Suc.prems(2) s2 have d2: "2 * s dvd a" by (metis dvd_trans)
  then have d1: "s dvd a" by (metis dvd_mult_right)
  have b: "a XOR s = a + s"
  proof -
    have "pow2 s" unfolding pow2_def s_def by blast
    from buddy_pair [OF this d1] show ?thesis
    proof (elim disjE conjE)
      assume "2 * s dvd a - s"
      from dvd_diff [OF d2 this] have "2 * s dvd s" by simp
      then have "2 * s \<le> s" using spos by (intro zdvd_imp_le)
      with spos show ?thesis by simp
    qed
  qed
  from Suc.prems(4) ij have gi: "get fl s = [a + s]" by (simp add: s_def)
  define fl1 where "fl1 = AList.update s [] fl"
  have g1: "get fl1 S = (if S = s then [] else get fl S)" for S
    by (simp add: fl1_def get_update)
  from lt spos gi b have step: "merge_loop T fl a (2 ^ i) = merge_loop T fl1 a (2 ^ Suc i)"
    by (subst merge_loop.simps) (simp add: s_def [symmetric] fl1_def mult.commute)
  have neq: "(2::int) ^ m \<noteq> s" if "Suc i \<le> m" for m
  proof -
    from that have "(2::int) ^ i < 2 ^ m" by (intro power_strict_increasing) simp_all
    then show ?thesis by (simp add: s_def)
  qed
  have p4: "\<forall>m. Suc i \<le> m \<and> m < j \<longrightarrow> get fl1 (2 ^ m) = [a + 2 ^ m]"
    using Suc.prems(4) neq by (simp add: g1)
  have p5: "a XOR 2 ^ j \<notin> set (get fl1 (2 ^ j))"
    using Suc.prems(5) neq [OF ij] by (simp add: g1)
  from Suc.hyps(1) [OF d ij Suc.prems(2,3) p4 p5] obtain fl' where
    fl': "merge_loop T fl1 a (2 ^ Suc i) = (fl', a, 2 ^ j)"
      "\<forall>S. get fl' S = (if \<exists>m. Suc i \<le> m \<and> m < j \<and> S = 2 ^ m then [] else get fl1 S)"
    by blast
  have "get fl' S = (if \<exists>m. i \<le> m \<and> m < j \<and> S = 2 ^ m then [] else get fl S)" for S
  proof (cases "\<exists>m. Suc i \<le> m \<and> m < j \<and> S = 2 ^ m")
    case True
    then obtain m where "Suc i \<le> m" "m < j" "S = 2 ^ m" by blast
    then have "i \<le> m \<and> m < j \<and> S = 2 ^ m" by simp
    then have "\<exists>m. i \<le> m \<and> m < j \<and> S = 2 ^ m" ..
    moreover from True fl'(2) have "get fl' S = []" by auto
    ultimately show ?thesis by auto
  next
    case False
    with fl'(2) have A: "get fl' S = get fl1 S" by auto
    show ?thesis
    proof (cases "S = s")
      case True
      then have "\<exists>m. i \<le> m \<and> m < j \<and> S = 2 ^ m" using ij s_def by auto
      moreover from True A have "get fl' S = []" by (simp add: g1)
      ultimately show ?thesis by auto
    next
      case ns: False
      have out: "\<not> (\<exists>m. i \<le> m \<and> m < j \<and> S = 2 ^ m)"
      proof
        assume "\<exists>m. i \<le> m \<and> m < j \<and> S = 2 ^ m"
        then obtain m where m: "i \<le> m" "m < j" "S = 2 ^ m" by blast
        with False have "m = i" by (cases "Suc i \<le> m") auto
        with m ns show False by (simp add: s_def)
      qed
      from ns A have "get fl' S = get fl S" by (simp add: g1)
      with out show ?thesis by auto
    qed
  qed
  with fl'(1) step show ?case by auto
qed

lemma free_after_allocate:
  assumes "invariant st" "0 < size0" "allocate st size0 = Some (Inr a, st1)"
  shows "\<exists>st2. free st1 a size0 = Some (Inr (), st2)
     \<and> (\<forall>S. get (free_list st2) S = get (free_list st) S)
     \<and> allocated st2 = allocated st \<and> total_memory st2 = total_memory st"
proof -
  let ?T = "total_memory st" and ?fl = "free_list st" and ?al = "allocated st"
  from allocate_effect [OF assms] obtain i j rest where
    e: "next_power_of_two size0 = Some (2 ^ i)" "i \<le> j"
      "get ?fl (2 ^ j) = a # rest"
      "\<forall>S. 2 ^ i \<le> S \<and> S < 2 ^ j \<longrightarrow> get ?fl S = []"
      "\<forall>S. get (free_list st1) S =
            (if \<exists>m. i \<le> m \<and> m < j \<and> S = 2 ^ m then [a + S]
             else if S = 2 ^ j then rest else get ?fl S)"
      "a \<notin> fst ` set ?al" "allocated st1 = ?al @ [(a, 2 ^ i)]" "total_memory st1 = ?T"
    by blast
  have notin: "\<not> (\<exists>m. i \<le> m \<and> m < j \<and> (2::int) ^ j = 2 ^ m)" by auto
  from e(3) have "a \<in> set (get ?fl (2 ^ j))" by simp
  from invariant_member [OF assms(1) this]
  have al: "2 ^ j dvd a" and bnd: "0 \<le> a" "a + 2 ^ j \<le> ?T" by simp_all
  then have jT: "2 ^ j \<le> ?T" by simp
  from e(2) have "(2::int) ^ i \<le> 2 ^ j" by (intro power_increasing) simp_all
  from this jT have "2 ^ i \<le> ?T" by (rule order_trans)
  then have iT: "2 ^ i \<le> total_memory st1" by (simp add: e(8))
  from e(6) have "map_of ?al a = None" by (simp add: map_of_eq_None_iff)
  then have look: "map_of (allocated st1) a = Some (2 ^ i)"
    by (simp add: e(7) map_add_def)
  have p4: "\<forall>m. i \<le> m \<and> m < j \<longrightarrow> get (free_list st1) (2 ^ m) = [a + 2 ^ m]"
    using e(5) by auto
  from e(5) notin have g1j: "get (free_list st1) (2 ^ j) = rest" by simp
  from assms(1) e(3) have "a XOR 2 ^ j \<notin> set (a # rest)"
    unfolding invariant_def no_buddies_def by (metis list.set_intros(1))
  with g1j have p5: "a XOR 2 ^ j \<notin> set (get (free_list st1) (2 ^ j))" by simp
  from merge_loop_up [OF e(2) al jT p4 p5] obtain fl' where
    fl': "merge_loop ?T (free_list st1) a (2 ^ i) = (fl', a, 2 ^ j)"
      "\<forall>S. get fl' S = (if \<exists>m. i \<le> m \<and> m < j \<and> S = 2 ^ m then [] else get (free_list st1) S)"
    by blast
  define st2 where "st2 = st1\<lparr>free_list := AList.update (2 ^ j) (sort (get fl' (2 ^ j) @ [a])) fl',
                     allocated := AList.delete a (allocated st1)\<rparr>"
  from fl'(1) have "merge_loop (total_memory st1) (free_list st1) a (2 ^ i) = (fl', a, 2 ^ j)"
    by (simp add: e(8))
  from free_success [OF e(1) iT look this]
  have fr: "free st1 a size0 = Some (Inr (), st2)" by (simp add: st2_def)
  from fl'(2) notin g1j have "get fl' (2 ^ j) = rest" by simp
  moreover from assms(1) have "sorted (get ?fl (2 ^ j))"
    by (simp add: invariant_def lists_sorted_def)
  then have "sort (rest @ [a]) = a # rest"
    unfolding e(3) by (intro properties_for_sort) simp_all
  ultimately have top: "sort (get fl' (2 ^ j) @ [a]) = get ?fl (2 ^ j)" by (simp add: e(3))
  have same: "get (free_list st2) S = get ?fl S" for S
  proof (cases "S = 2 ^ j")
    case True
    with top show ?thesis by (simp add: st2_def get_update)
  next
    case nj: False
    then have A: "get (free_list st2) S = get fl' S" by (simp add: st2_def get_update)
    show ?thesis
    proof (cases "\<exists>m. i \<le> m \<and> m < j \<and> S = 2 ^ m")
      case True
      then obtain m where m: "i \<le> m" "m < j" "S = 2 ^ m" by blast
      then have "(2::int) ^ i \<le> 2 ^ m" "(2::int) ^ m < 2 ^ j"
        by (simp_all add: power_increasing power_strict_increasing)
      with e(4) m have "get ?fl S = []" by simp
      moreover from True fl'(2) have "get fl' S = []" by auto
      ultimately show ?thesis using A by simp
    next
      case False
      with fl'(2) have "get fl' S = get (free_list st1) S" by auto
      also from False nj e(5) have "\<dots> = get ?fl S" by auto
      finally show ?thesis using A by simp
    qed
  qed
  have "AList.delete a (xs @ [(a, v)]) = xs" if "a \<notin> fst ` set xs" for xs :: "(int \<times> int) list" and v
    using that by (induction xs) auto
  with e(6) have "AList.delete a (?al @ [(a, 2 ^ i)]) = ?al" by blast
  then have "allocated st2 = ?al" "total_memory st2 = ?T" by (simp_all add: st2_def e(7) e(8))
  with fr same show ?thesis by blast
qed

text \<open>
  Claim C3. In every state reached from a fresh allocator by calls with positive sizes:
  if \<^verbatim>\<open>allocate(s)\<close> succeeds and returns \<open>a\<close>, then \<^verbatim>\<open>free(a, s)\<close> called next
  succeeds, and afterwards every size has the free addresses it had before the
  allocation, in the same order; the allocated registry is as before too. (The sizes
  that the split created stay in the dictionary as keys with empty lists, which
  \<^verbatim>\<open>free_list.get(size, [])\<close> does not tell from absent ones.)
\<close>

theorem round_trip:
  assumes "construct tm = Inr st0" "0 < tm" "\<forall>x\<in>set xs. positive x"
  shows "\<exists>st. run st0 xs = Some st
     \<and> (\<forall>size0 a st1. 0 < size0 \<longrightarrow> allocate st size0 = Some (Inr a, st1) \<longrightarrow>
           (\<exists>st2. free st1 a size0 = Some (Inr (), st2)
              \<and> (\<forall>S. get (free_list st2) S = get (free_list st) S)
              \<and> allocated st2 = allocated st \<and> total_memory st2 = total_memory st))"
proof -
  from reachable_invariant [OF assms] obtain st where
    st: "run st0 xs = Some st" "invariant st" by blast
  from st(1) free_after_allocate [OF st(2)] show ?thesis by blast
qed

theorem round_trip_witness:
  "construct 8 = Inr \<lparr>total_memory = 8, free_list = [(8, [0])], allocated = []\<rparr>
   \<and> (0::int) < 8
   \<and> positive (Alloc 3) \<and> positive (Alloc 1) \<and> positive (Free 0 3) \<and> positive (Alloc 9)
   \<and> positive (Free 5 1)
   \<and> run \<lparr>total_memory = 8, free_list = [(8, [0])], allocated = []\<rparr>
         [Alloc 3, Alloc 1, Free 0 3, Alloc 9, Free 5 1]
       = Some \<lparr>total_memory = 8, free_list = [(8, []), (4, [0]), (2, [6]), (1, [5])],
                allocated = [(4, 1)]\<rparr>
   \<and> (0::int) < 2
   \<and> allocate \<lparr>total_memory = 8, free_list = [(8, []), (4, [0]), (2, [6]), (1, [5])],
                 allocated = [(4, 1)]\<rparr> 2
        = Some (Inr 6, \<lparr>total_memory = 8, free_list = [(8, []), (4, [0]), (2, []), (1, [5])],
                        allocated = [(4, 1), (6, 2)]\<rparr>)
   \<and> (\<exists>st2. free \<lparr>total_memory = 8, free_list = [(8, []), (4, [0]), (2, []), (1, [5])],
                    allocated = [(4, 1), (6, 2)]\<rparr> 6 2 = Some (Inr (), st2)
         \<and> (\<forall>S. get (free_list st2) S = get [(8, []), (4, [0]), (2, [6]), (1, [5])] S)
         \<and> allocated st2 = [(4, 1)] \<and> total_memory st2 = 8)"
proof -
  have "(0::int) < 8" by simp
  from round_trip [OF example_construct this example_positive] obtain st where
    st: "run \<lparr>total_memory = 8, free_list = [(8, [0])], allocated = []\<rparr>
           [Alloc 3, Alloc 1, Free 0 3, Alloc 9, Free 5 1] = Some st"
      "\<forall>size0 a st1. 0 < size0 \<longrightarrow> allocate st size0 = Some (Inr a, st1) \<longrightarrow>
           (\<exists>st2. free st1 a size0 = Some (Inr (), st2)
              \<and> (\<forall>S. get (free_list st2) S = get (free_list st) S)
              \<and> allocated st2 = allocated st \<and> total_memory st2 = total_memory st)"
    by blast
  from st(1) have eq: "st = \<lparr>total_memory = 8, free_list = [(8, []), (4, [0]), (2, [6]), (1, [5])],
                allocated = [(4, 1)]\<rparr>"
    unfolding example_run by simp
  have al: "allocate \<lparr>total_memory = 8, free_list = [(8, []), (4, [0]), (2, [6]), (1, [5])],
                 allocated = [(4, 1)]\<rparr> 2
        = Some (Inr 6, \<lparr>total_memory = 8, free_list = [(8, []), (4, [0]), (2, []), (1, [5])],
                        allocated = [(4, 1), (6, 2)]\<rparr>)"
    by code_simp
  from st(2) [unfolded eq, rule_format, OF _ al]
  have "\<exists>st2. free \<lparr>total_memory = 8, free_list = [(8, []), (4, [0]), (2, []), (1, [5])],
                    allocated = [(4, 1), (6, 2)]\<rparr> 6 2 = Some (Inr (), st2)
         \<and> (\<forall>S. get (free_list st2) S = get [(8, []), (4, [0]), (2, [6]), (1, [5])] S)
         \<and> allocated st2 = [(4, 1)] \<and> total_memory st2 = 8"
    by simp
  with al example_construct example_run show ?thesis by simp
qed

text \<open>
  The dictionary itself is not the one before the allocation when the allocation has
  split a block: on a fresh allocator over \<open>1024\<close>, \<^verbatim>\<open>allocate(200)\<close> and \<^verbatim>\<open>free(0, 200)\<close>
  leave the keys \<open>512\<close> and \<open>256\<close> behind, with empty lists.
\<close>

lemma round_trip_keeps_keys:
  "allocate \<lparr>total_memory = 1024, free_list = [(1024, [0])], allocated = []\<rparr> 200
     = Some (Inr 0, \<lparr>total_memory = 1024, free_list = [(1024, []), (512, [512]), (256, [256])],
                     allocated = [(0, 256)]\<rparr>)
   \<and> free \<lparr>total_memory = 1024, free_list = [(1024, []), (512, [512]), (256, [256])],
            allocated = [(0, 256)]\<rparr> 0 200
     = Some (Inr (), \<lparr>total_memory = 1024, free_list = [(1024, [0]), (512, []), (256, [])],
                      allocated = []\<rparr>)"
  by code_simp

section \<open>The worked example\<close>

text \<open>
  Claim C8. On a fresh allocator with \<open>total_memory = 1024\<close>, \<^verbatim>\<open>allocate(200)\<close> rounds
  to \<open>256\<close> and returns address \<open>0\<close>, leaving free exactly the block of size \<open>512\<close> at
  \<open>512\<close> and the block of size \<open>256\<close> at \<open>256\<close>; then \<^verbatim>\<open>allocate(100)\<close> rounds to
  \<open>128\<close> and returns address \<open>256\<close>; then \<^verbatim>\<open>free(0, 256)\<close> and \<^verbatim>\<open>free(256, 128)\<close>
  coalesce the free space back to the single block of size \<open>1024\<close> at address \<open>0\<close>.
  The dictionaries are given as the code leaves them: sizes whose lists have been emptied
  stay as keys.
\<close>

theorem split_merge_example:
  "construct 1024 = Inr \<lparr>total_memory = 1024, free_list = [(1024, [0])], allocated = []\<rparr>
   \<and> next_power_of_two 200 = Some 256
   \<and> allocate \<lparr>total_memory = 1024, free_list = [(1024, [0])], allocated = []\<rparr> 200
       = Some (Inr 0, \<lparr>total_memory = 1024, free_list = [(1024, []), (512, [512]), (256, [256])],
                       allocated = [(0, 256)]\<rparr>)
   \<and> free_blocks [(1024, []), (512, [512]), (256, [256])] = [(512, 512), (256, 256)]
   \<and> next_power_of_two 100 = Some 128
   \<and> allocate \<lparr>total_memory = 1024, free_list = [(1024, []), (512, [512]), (256, [256])],
                allocated = [(0, 256)]\<rparr> 100
       = Some (Inr 256, \<lparr>total_memory = 1024,
                         free_list = [(1024, []), (512, [512]), (256, []), (128, [384])],
                         allocated = [(0, 256), (256, 128)]\<rparr>)
   \<and> free \<lparr>total_memory = 1024, free_list = [(1024, []), (512, [512]), (256, []), (128, [384])],
            allocated = [(0, 256), (256, 128)]\<rparr> 0 256
       = Some (Inr (), \<lparr>total_memory = 1024,
                        free_list = [(1024, []), (512, [512]), (256, [0]), (128, [384])],
                        allocated = [(256, 128)]\<rparr>)
   \<and> free \<lparr>total_memory = 1024, free_list = [(1024, []), (512, [512]), (256, [0]), (128, [384])],
            allocated = [(256, 128)]\<rparr> 256 128
       = Some (Inr (), \<lparr>total_memory = 1024,
                        free_list = [(1024, [0]), (512, []), (256, []), (128, [])],
                        allocated = []\<rparr>)
   \<and> free_blocks [(1024, [0]), (512, []), (256, []), (128, [])] = [(0, 1024)]"
  by code_simp

end
